theory Spec2Isabelle
  imports Complex_Main "HOL-Library.Word"
begin

section \<open>Data model\<close>

text \<open>
  The notebook holds three numerical kernels: the trial-division generator \<open>primes\<close>,
  the escape-time loops \<open>mandelbrot_python\<close> and \<open>mandelbrot_cython\<close>, and the random
  walk \<open>walk_numba\<close> with its step function \<open>step_numba\<close>.

  Python integers are modelled as \<open>int\<close>. The two \<open>int\<close> parameters of the typed
  Cython function are 32-bit machine integers, read with \<open>sint\<close>. A floating-point
  value (\<open>float\<close>, the two parts of a \<open>complex\<close>, an entry of the walk array) is the
  real number it denotes, and every arithmetic operation of the code is the exact
  operation followed by the rounding \<open>fl\<close> of IEEE 754 binary64. An exception is a value
  of \<open>py_error\<close>, and every function that can raise returns a sum whose left injection
  is the exception.
\<close>

datatype py_error = IndexError | ZeroDivisionError | ValueError

text \<open>\<open>range(n)\<close> for a Python integer \<open>n\<close>: the indices \<open>0, ..., n - 1\<close>, none when \<open>n \<le> 0\<close>.\<close>

definition py_range :: "int \<Rightarrow> nat list" where
  "py_range n = [0..<nat n]"

text \<open>Indexing a Python list: a negative index counts from the end.\<close>

definition getitem :: "'a list \<Rightarrow> int \<Rightarrow> py_error + 'a" where
  "getitem xs i =
     (if 0 \<le> i \<and> i < int (length xs) then Inr (xs ! nat i)
      else if - int (length xs) \<le> i \<and> i < 0 then Inr (xs ! nat (int (length xs) + i))
      else Inl IndexError)"

subsection \<open>Binary64 arithmetic\<close>

text \<open>
  Rounding to binary64. A nonzero real \<open>x\<close> of binary exponent \<open>expo x\<close> (at least
  \<open>-1022\<close>, the exponent of the subnormal numbers) is rounded to the nearest multiple
  of its quantum \<open>2 ^ (expo x - 52)\<close>, a tie going to the even multiple (\<open>rne\<close>). The
  largest finite value is not part of the model: no computation of the three kernels
  on an array that fits in memory comes near it. The two zeros are not told apart;
  no comparison of the code does.
\<close>

definition expo :: "real \<Rightarrow> int" where
  "expo x = (if \<bar>x\<bar> < 2 powi (- 1022) then - 1022 else \<lfloor>log 2 \<bar>x\<bar>\<rfloor>)"

definition quantum :: "real \<Rightarrow> real" where
  "quantum x = 2 powi (expo x - 52)"

definition rne :: "real \<Rightarrow> int" where
  "rne y =
     (if y - of_int \<lfloor>y\<rfloor> < 1 / 2 then \<lfloor>y\<rfloor>
      else if 1 / 2 < y - of_int \<lfloor>y\<rfloor> then \<lfloor>y\<rfloor> + 1
      else if even \<lfloor>y\<rfloor> then \<lfloor>y\<rfloor> else \<lfloor>y\<rfloor> + 1)"

definition fl :: "real \<Rightarrow> real" where
  "fl x = (if x = 0 then 0 else of_int (rne (x / quantum x)) * quantum x)"

text \<open>
  The operations of the code: \<open>+\<close>, \<open>-\<close>, \<open>*\<close> and \<open>/\<close> on floats, the conversion of an
  integer operand to a float, and the sum and the product of two complex numbers as
  CPython and C compute them, part by part, each operation rounded once.
  \<open>np.abs\<close> of a complex number is the correctly rounded modulus.
\<close>

definition fadd :: "real \<Rightarrow> real \<Rightarrow> real" where "fadd x y = fl (x + y)"
definition fsub :: "real \<Rightarrow> real \<Rightarrow> real" where "fsub x y = fl (x - y)"
definition fmul :: "real \<Rightarrow> real \<Rightarrow> real" where "fmul x y = fl (x * y)"
definition fdiv :: "real \<Rightarrow> real \<Rightarrow> real" where "fdiv x y = fl (x / y)"

definition float_of_int :: "int \<Rightarrow> real" where
  "float_of_int k = fl (of_int k)"

definition cadd :: "complex \<Rightarrow> complex \<Rightarrow> complex" where
  "cadd a b = Complex (fadd (Re a) (Re b)) (fadd (Im a) (Im b))"

definition cmul :: "complex \<Rightarrow> complex \<Rightarrow> complex" where
  "cmul a b =
     Complex (fsub (fmul (Re a) (Re b)) (fmul (Im a) (Im b)))
             (fadd (fmul (Re a) (Im b)) (fmul (Im a) (Re b)))"

definition np_abs :: "complex \<Rightarrow> real" where
  "np_abs z = fl (cmod z)"

subsection \<open>The prime generator\<close>

text \<open>
  The inner loop \<open>while i < k and n % p[i] != 0: i = i + 1\<close>. Its result is the final
  value of \<open>i\<close>; \<open>p[i]\<close> out of range and a zero divisor raise.
\<close>

function primes_inner :: "int list \<Rightarrow> int \<Rightarrow> int \<Rightarrow> int \<Rightarrow> py_error + int" where
  "primes_inner p k n i =
     (if i < k then
        (case getitem p i of
           Inl e \<Rightarrow> Inl e
         | Inr d \<Rightarrow>
             if d = 0 then Inl ZeroDivisionError
             else if n mod d \<noteq> 0 then primes_inner p k n (i + 1)
             else Inr i)
      else Inr i)"
  by pat_completeness auto
termination
  by (relation "measure (\<lambda>(p, k, n, i). nat (k - i))") auto

declare primes_inner.simps [simp del]

text \<open>
  The variables of the outer loop \<open>while k < kmax\<close>. The loop need not terminate on an
  arbitrary state, so it is a partial function: \<open>None\<close> stands for a run that never
  returns. It returns the whole final state; \<open>primes\<close> returns its \<open>result\<close>.
\<close>

record primes_state =
  ps_p :: "int list"
  ps_result :: "int list"
  ps_k :: int
  ps_n :: int

partial_function (option) primes_loop :: "int \<Rightarrow> primes_state \<Rightarrow> (py_error + primes_state) option" where
  "primes_loop kmax s =
     (if ps_k s < kmax then
        (case primes_inner (ps_p s) (ps_k s) (ps_n s) 0 of
           Inl e \<Rightarrow> Some (Inl e)
         | Inr i \<Rightarrow>
             if i = ps_k s
             then primes_loop kmax
                    (s\<lparr>ps_p := ps_p s @ [ps_n s], ps_k := ps_k s + 1,
                       ps_result := ps_result s @ [ps_n s], ps_n := ps_n s + 1\<rparr>)
             else primes_loop kmax (s\<lparr>ps_n := ps_n s + 1\<rparr>))
      else Some (Inr s))"

declare primes_loop.simps [code]

definition primes_run :: "int \<Rightarrow> (py_error + primes_state) option" where
  "primes_run kmax =
     primes_loop (if kmax > 1000 then 1000 else kmax)
       \<lparr>ps_p = [], ps_result = [], ps_k = 0, ps_n = 2\<rparr>"

definition primes :: "int \<Rightarrow> (py_error + int list) option" where
  "primes kmax = map_option (map_sum id ps_result) (primes_run kmax)"


subsection \<open>The Mandelbrot escape-time loops\<close>

text \<open>
  The array \<open>m\<close> is mutated in place. The model passes it through every loop together
  with the trace of the positions written so far, in program order; an index outside
  the array raises \<open>IndexError\<close>.
\<close>

record grid =
  cells :: "int list list"
  writes :: "(nat \<times> nat) list"

definition setitem2 :: "grid \<Rightarrow> nat \<Rightarrow> nat \<Rightarrow> int \<Rightarrow> py_error + grid" where
  "setitem2 m i j v =
     (if i < length (cells m) \<and> j < length (cells m ! i)
      then Inr (m\<lparr>cells := (cells m)[i := (cells m ! i)[j := v]],
                  writes := writes m @ [(i, j)]\<rparr>)
      else Inl IndexError)"

text \<open>
  The parameter of cell \<open>(i, j)\<close>: \<open>c = -2 + 3./size*j + 1j*(1.5-3./size*i)\<close>. The
  real part \<open>-2 + 3./size*j\<close> and the factor \<open>1.5-3./size*i\<close> are floats; the product
  with \<open>1j\<close> and the final sum are complex operations.
\<close>

definition cell_c :: "int \<Rightarrow> nat \<Rightarrow> nat \<Rightarrow> complex" where
  "cell_c sz i j =
     cadd (Complex (fadd (- 2) (fmul (fdiv 3 (float_of_int sz)) (float_of_int (int j)))) 0)
          (cmul \<i> (Complex (fsub (3 / 2) (fmul (fdiv 3 (float_of_int sz)) (float_of_int (int i)))) 0))"

text \<open>
  The loop \<open>for n in range(iterations)\<close> of \<open>mandelbrot_python\<close>, with its \<open>break\<close>,
  then the loops over \<open>j\<close> and \<open>i\<close>.
\<close>

fun python_iter :: "grid \<Rightarrow> nat \<Rightarrow> nat \<Rightarrow> complex \<Rightarrow> complex \<Rightarrow> nat list \<Rightarrow> py_error + grid" where
  "python_iter m i j c z [] = Inr m"
| "python_iter m i j c z (n # ns) =
     (if np_abs z \<le> 10 then
        (case setitem2 m i j (int n) of
           Inl e \<Rightarrow> Inl e
         | Inr m' \<Rightarrow> python_iter m' i j c (cadd (cmul z z) c) ns)
      else Inr m)"

fun python_cols :: "grid \<Rightarrow> int \<Rightarrow> int \<Rightarrow> nat \<Rightarrow> nat list \<Rightarrow> py_error + grid" where
  "python_cols m sz iterations i [] = Inr m"
| "python_cols m sz iterations i (j # js) =
     (case python_iter m i j (cell_c sz i j) 0 (py_range iterations) of
        Inl e \<Rightarrow> Inl e
      | Inr m' \<Rightarrow> python_cols m' sz iterations i js)"

fun python_rows :: "grid \<Rightarrow> int \<Rightarrow> int \<Rightarrow> nat list \<Rightarrow> py_error + grid" where
  "python_rows m sz iterations [] = Inr m"
| "python_rows m sz iterations (i # is) =
     (case python_cols m sz iterations i (py_range sz) of
        Inl e \<Rightarrow> Inl e
      | Inr m' \<Rightarrow> python_rows m' sz iterations is)"

definition mandelbrot_python :: "grid \<Rightarrow> int \<Rightarrow> int \<Rightarrow> py_error + grid" where
  "mandelbrot_python m sz iterations = python_rows m sz iterations (py_range sz)"

text \<open>
  The typed Cython function: the same loops with the test \<open>z.real**2 + z.imag**2 <= 100\<close>,
  and \<open>size\<close> and \<open>iterations\<close> declared \<open>int\<close>. The square \<open>x**2\<close> of a float is the
  rounded product \<open>x * x\<close>.
\<close>

fun cython_iter :: "grid \<Rightarrow> nat \<Rightarrow> nat \<Rightarrow> complex \<Rightarrow> complex \<Rightarrow> nat list \<Rightarrow> py_error + grid" where
  "cython_iter m i j c z [] = Inr m"
| "cython_iter m i j c z (n # ns) =
     (if fadd (fmul (Re z) (Re z)) (fmul (Im z) (Im z)) \<le> 100 then
        (case setitem2 m i j (int n) of
           Inl e \<Rightarrow> Inl e
         | Inr m' \<Rightarrow> cython_iter m' i j c (cadd (cmul z z) c) ns)
      else Inr m)"

fun cython_cols :: "grid \<Rightarrow> int \<Rightarrow> int \<Rightarrow> nat \<Rightarrow> nat list \<Rightarrow> py_error + grid" where
  "cython_cols m sz iterations i [] = Inr m"
| "cython_cols m sz iterations i (j # js) =
     (case cython_iter m i j (cell_c sz i j) 0 (py_range iterations) of
        Inl e \<Rightarrow> Inl e
      | Inr m' \<Rightarrow> cython_cols m' sz iterations i js)"

fun cython_rows :: "grid \<Rightarrow> int \<Rightarrow> int \<Rightarrow> nat list \<Rightarrow> py_error + grid" where
  "cython_rows m sz iterations [] = Inr m"
| "cython_rows m sz iterations (i # is) =
     (case cython_cols m sz iterations i (py_range sz) of
        Inl e \<Rightarrow> Inl e
      | Inr m' \<Rightarrow> cython_rows m' sz iterations is)"

definition mandelbrot_cython :: "grid \<Rightarrow> 32 word \<Rightarrow> 32 word \<Rightarrow> py_error + grid" where
  "mandelbrot_cython m sz iterations =
     cython_rows m (sint sz) (sint iterations) (py_range (sint sz))"

subsection \<open>The random walk\<close>

text \<open>
  \<open>random.random()\<close> is the only source of randomness. The walk takes the sequence of
  its results as an argument \<open>rnd\<close>: iteration \<open>i\<close> of the loop makes the \<open>i\<close>-th draw.
  \<open>np.zeros(n)\<close> raises \<open>ValueError\<close> for a negative \<open>n\<close>, and \<open>1. / n\<close> raises
  \<open>ZeroDivisionError\<close> for \<open>n = 0\<close>. The threshold \<open>5e-3\<close> is the float nearest to
  \<open>5 / 1000\<close>.
\<close>

definition step_numba :: "real \<Rightarrow> real" where
  "step_numba r = (if r > 0.5 then 1 else - 1)"

definition np_zeros :: "int \<Rightarrow> py_error + real list" where
  "np_zeros n = (if n < 0 then Inl ValueError else Inr (replicate (nat n) 0))"

definition array_get :: "real list \<Rightarrow> nat \<Rightarrow> py_error + real" where
  "array_get x i = (if i < length x then Inr (x ! i) else Inl IndexError)"

definition array_set :: "real list \<Rightarrow> nat \<Rightarrow> real \<Rightarrow> py_error + real list" where
  "array_set x i v = (if i < length x then Inr (x[i := v]) else Inl IndexError)"

fun walk_loop :: "(nat \<Rightarrow> real) \<Rightarrow> real \<Rightarrow> real list \<Rightarrow> nat list \<Rightarrow> py_error + real list" where
  "walk_loop rnd dx x [] = Inr x"
| "walk_loop rnd dx x (i # is) =
     (case array_get x i of
        Inl e \<Rightarrow> Inl e
      | Inr xi \<Rightarrow>
          (let x_new = fadd xi (fmul dx (step_numba (rnd i))) in
           case (if x_new > fl 0.005 then array_set x (i + 1) 0 else array_set x (i + 1) x_new) of
             Inl e \<Rightarrow> Inl e
           | Inr x' \<Rightarrow> walk_loop rnd dx x' is))"

definition walk_numba :: "(nat \<Rightarrow> real) \<Rightarrow> int \<Rightarrow> py_error + real list" where
  "walk_numba rnd n =
     (case np_zeros n of
        Inl e \<Rightarrow> Inl e
      | Inr x \<Rightarrow>
          if n = 0 then Inl ZeroDivisionError
          else walk_loop rnd (fdiv 1 (float_of_int n)) x (py_range (n - 1)))"

text \<open>Two constant sequences of draws, for concrete runs.\<close>

definition draws_high :: "nat \<Rightarrow> real" where "draws_high k = 0.75"
definition draws_low :: "nat \<Rightarrow> real" where "draws_low k = 0.25"


section \<open>Specification-side notions\<close>

text \<open>Primality of an integer, by bounded search for a divisor.\<close>

definition is_prime :: "int \<Rightarrow> bool" where
  "is_prime n = (2 \<le> n \<and> (\<forall>d\<in>{2..<n}. \<not> d dvd n))"

text \<open>
  The invariant of the outer loop of \<open>primes\<close>: \<open>p\<close> and \<open>result\<close> both hold, in
  increasing order, exactly the primes below the next candidate \<open>n\<close>, and \<open>k\<close> counts them.
\<close>

definition primes_inv :: "primes_state \<Rightarrow> bool" where
  "primes_inv s =
     (2 \<le> ps_n s \<and> ps_k s = int (length (ps_p s)) \<and> ps_result s = ps_p s \<and>
      sorted_wrt (<) (ps_p s) \<and> set (ps_p s) = {q. is_prime q \<and> q < ps_n s})"

text \<open>The state after the candidate has been appended as a new prime.\<close>

definition primes_found :: "primes_state \<Rightarrow> primes_state" where
  "primes_found s =
     s\<lparr>ps_p := ps_p s @ [ps_n s], ps_k := ps_k s + 1,
       ps_result := ps_result s @ [ps_n s], ps_n := ps_n s + 1\<rparr>"

text \<open>
  The orbit as the loops compute it: \<open>z\<^sub>0 = 0\<close> and \<open>z\<^sub>t\<^sub>+\<^sub>1 = z\<^sub>t * z\<^sub>t + c\<close>, every
  operation rounded.
\<close>

fun orbit :: "complex \<Rightarrow> nat \<Rightarrow> complex" where
  "orbit c 0 = 0"
| "orbit c (Suc t) = cadd (cmul (orbit c t) (orbit c t)) c"

text \<open>
  The orbit and the parameter of a cell over the complex numbers, without rounding:
  \<open>z\<^sub>0 = 0\<close>, \<open>z\<^sub>t\<^sub>+\<^sub>1 = z\<^sub>t\<^sup>2 + c\<close> and \<open>c = (-2 + 3 col / S) + (1.5 - 3 row / S) i\<close>.
\<close>

fun exact_orbit :: "complex \<Rightarrow> nat \<Rightarrow> complex" where
  "exact_orbit c 0 = 0"
| "exact_orbit c (Suc t) = (exact_orbit c t)\<^sup>2 + c"

definition exact_c :: "int \<Rightarrow> nat \<Rightarrow> nat \<Rightarrow> complex" where
  "exact_c S row col = Complex (- 2 + 3 * real col / real_of_int S) (1.5 - 3 * real row / real_of_int S)"

text \<open>
  The two bound tests: \<open>np.abs(z) <= 10\<close> of the pure-Python loop and
  \<open>z.real**2 + z.imag**2 <= 100\<close> of the typed Cython loop.
\<close>

definition python_test :: "complex \<Rightarrow> bool" where
  "python_test z = (np_abs z \<le> 10)"

definition cython_test :: "complex \<Rightarrow> bool" where
  "cython_test z = (fadd (fmul (Re z) (Re z)) (fmul (Im z) (Im z)) \<le> 100)"

text \<open>
  The escape-time loops with the bound test as a parameter: the loops of both functions
  are instances.
\<close>

fun escape_iter :: "(complex \<Rightarrow> bool) \<Rightarrow> grid \<Rightarrow> nat \<Rightarrow> nat \<Rightarrow> complex \<Rightarrow> complex \<Rightarrow> nat list \<Rightarrow> py_error + grid" where
  "escape_iter test m i j c z [] = Inr m"
| "escape_iter test m i j c z (n # ns) =
     (if test z then
        (case setitem2 m i j (int n) of
           Inl e \<Rightarrow> Inl e
         | Inr m' \<Rightarrow> escape_iter test m' i j c (cadd (cmul z z) c) ns)
      else Inr m)"

fun escape_cols :: "(complex \<Rightarrow> bool) \<Rightarrow> grid \<Rightarrow> int \<Rightarrow> int \<Rightarrow> nat \<Rightarrow> nat list \<Rightarrow> py_error + grid" where
  "escape_cols test m sz iterations i [] = Inr m"
| "escape_cols test m sz iterations i (j # js) =
     (case escape_iter test m i j (cell_c sz i j) 0 (py_range iterations) of
        Inl e \<Rightarrow> Inl e
      | Inr m' \<Rightarrow> escape_cols test m' sz iterations i js)"

fun escape_rows :: "(complex \<Rightarrow> bool) \<Rightarrow> grid \<Rightarrow> int \<Rightarrow> int \<Rightarrow> nat list \<Rightarrow> py_error + grid" where
  "escape_rows test m sz iterations [] = Inr m"
| "escape_rows test m sz iterations (i # is) =
     (case escape_cols test m sz iterations i (py_range sz) of
        Inl e \<Rightarrow> Inl e
      | Inr m' \<Rightarrow> escape_rows test m' sz iterations is)"

text \<open>
  \<open>n\<close> is the last index below the budget \<open>K\<close> at which the orbit still passes the
  test: every point up to \<open>n\<close> passes, and the next one, if the budget reaches it, does
  not. \<open>exact_last_inside\<close> says the same of the exact orbit and the radius 10.
\<close>

definition last_inside :: "(complex \<Rightarrow> bool) \<Rightarrow> complex \<Rightarrow> nat \<Rightarrow> nat \<Rightarrow> bool" where
  "last_inside test c K n =
     (n < K \<and> (\<forall>t\<in>{0..n}. test (orbit c t)) \<and> (Suc n < K \<longrightarrow> \<not> test (orbit c (Suc n))))"

definition exact_last_inside :: "complex \<Rightarrow> nat \<Rightarrow> nat \<Rightarrow> bool" where
  "exact_last_inside c K n =
     (n < K \<and> (\<forall>t\<in>{0..n}. cmod (exact_orbit c t) \<le> 10) \<and>
      (Suc n < K \<longrightarrow> 10 < cmod (exact_orbit c (Suc n))))"

text \<open>
  The grid after one store of \<open>v\<close> at \<open>(i, j)\<close> that closes \<open>k\<close> stores at that
  position.
\<close>

definition put :: "grid \<Rightarrow> nat \<Rightarrow> nat \<Rightarrow> int \<Rightarrow> nat \<Rightarrow> grid" where
  "put m i j v k =
     m\<lparr>cells := (cells m)[i := (cells m ! i)[j := v]],
       writes := writes m @ replicate k (i, j)\<rparr>"

text \<open>The array has at least \<open>s\<close> rows, and its first \<open>s\<close> rows at least \<open>s\<close> entries.\<close>

definition fits :: "grid \<Rightarrow> nat \<Rightarrow> bool" where
  "fits m s = (s \<le> length (cells m) \<and> (\<forall>i\<in>{0..<s}. s \<le> length (cells m ! i)))"

text \<open>
  The effect of a run on the set \<open>B\<close> of positions: the shape is kept, every position
  of \<open>B\<close> holds the last index at which its orbit passes the test, every other entry is
  unchanged, and the positions written are those of \<open>B\<close>.
\<close>

definition filled :: "(complex \<Rightarrow> bool) \<Rightarrow> (nat \<times> nat) set \<Rightarrow> int \<Rightarrow> nat \<Rightarrow> grid \<Rightarrow> grid \<Rightarrow> bool" where
  "filled test B S K m m' =
     (length (cells m') = length (cells m) \<and>
      (\<forall>r. length (cells m' ! r) = length (cells m ! r)) \<and>
      (\<forall>r q. (r, q) \<in> B \<longrightarrow>
         (\<exists>v. cells m' ! r ! q = int v \<and> last_inside test (cell_c S r q) K v)) \<and>
      (\<forall>r q. (r, q) \<notin> B \<longrightarrow> cells m' ! r ! q = cells m ! r ! q) \<and>
      set (writes m') = set (writes m) \<union> B)"

text \<open>
  The frame of a run over the block of side \<open>s\<close>: the shape is kept, the positions
  written are exactly those of the block (added to the trace), entries outside the
  block are unchanged, and entries of the block hold an iteration index below \<open>K\<close>.
\<close>

definition block_written :: "grid \<Rightarrow> nat \<Rightarrow> int \<Rightarrow> grid \<Rightarrow> bool" where
  "block_written m s K m' =
     (length (cells m') = length (cells m) \<and>
      (\<forall>r. length (cells m' ! r) = length (cells m ! r)) \<and>
      set (writes m') = set (writes m) \<union> {0..<s} \<times> {0..<s} \<and>
      (\<forall>r q. \<not> (r < s \<and> q < s) \<longrightarrow> cells m' ! r ! q = cells m ! r ! q) \<and>
      (\<forall>r q. r < s \<and> q < s \<longrightarrow> 0 \<le> cells m' ! r ! q \<and> cells m' ! r ! q < K))"

text \<open>The entry \<open>(i, j)\<close> of the grid a run returns.\<close>

definition result_cell :: "py_error + grid \<Rightarrow> nat \<Rightarrow> nat \<Rightarrow> py_error + int" where
  "result_cell r i j = (case r of Inl e \<Rightarrow> Inl e | Inr m \<Rightarrow> Inr (cells m ! i ! j))"

text \<open>
  The rule of the walk as the loop computes it: the candidate is the position plus the
  step size times the drawn step; a candidate above the threshold is replaced by 0.
\<close>

definition walk_next :: "real \<Rightarrow> real \<Rightarrow> real \<Rightarrow> real" where
  "walk_next dx r xi =
     (let cand = fadd xi (fmul dx (step_numba r)) in if cand > fl 0.005 then 0 else cand)"

text \<open>
  The rule of the walk over the real numbers, without rounding: the step is \<open>1 / n\<close>
  and the threshold is \<open>5 / 1000\<close>.
\<close>

fun exact_walk :: "(nat \<Rightarrow> real) \<Rightarrow> int \<Rightarrow> nat \<Rightarrow> real" where
  "exact_walk rnd n 0 = 0"
| "exact_walk rnd n (Suc i) =
     (let cand = exact_walk rnd n i + 1 / real_of_int n * step_numba (rnd i)
      in if cand > 5 / 1000 then 0 else cand)"



section \<open>Rounding to binary64\<close>

text \<open>
  The rounding \<open>fl\<close> is determined by the exponent and the nearest multiple of the
  quantum (\<open>fl_eqI\<close>, and \<open>fl_tieI\<close> for a tie); it is odd, idempotent and monotone,
  it keeps every integer below \<open>2 ^ 53\<close> and every dyadic number with such a numerator,
  and it at most doubles a value.
\<close>

lemma quantum_pos: "0 < quantum x"
  unfolding quantum_def by (rule zero_less_power_int) simp

lemma two_powi_pos: "0 < (2::real) powi e"
  by (rule zero_less_power_int) simp

lemma floor_log2_iff:
  assumes "0 < x"
  shows "\<lfloor>log 2 x\<rfloor> = k \<longleftrightarrow> 2 powi k \<le> x \<and> x < 2 powi (k + 1)"
proof -
  have a: "2 powr real_of_int k = (2::real) powi k" by (rule powr_real_of_int') simp_all
  have b: "2 powr real_of_int (k + 1) = (2::real) powi (k + 1)" by (rule powr_real_of_int') simp_all
  have "(\<lfloor>log 2 x\<rfloor> = k) = (2 powr real_of_int k \<le> x \<and> x < 2 powr real_of_int (k + 1))"
    by (rule floor_log_eq_powr_iff[OF assms]) simp
  then show ?thesis unfolding a b .
qed

lemma expo_eqI:
  assumes "2 powi e \<le> \<bar>x\<bar>" "\<bar>x\<bar> < 2 powi (e + 1)" "- 1022 \<le> e"
  shows "expo x = e"
proof -
  have pos: "0 < \<bar>x\<bar>" using assms(1) two_powi_pos[of e] by linarith
  have "(2::real) powi (- 1022) \<le> 2 powi e" using assms(3) by (intro power_int_increasing) simp_all
  with assms(1) have n: "\<not> \<bar>x\<bar> < 2 powi (- 1022)" by linarith
  have "\<lfloor>log 2 \<bar>x\<bar>\<rfloor> = e" using assms(1,2) floor_log2_iff[OF pos, of e] by simp
  with n show ?thesis by (simp only: expo_def if_False)
qed

lemma expo_subnormal:
  assumes "\<bar>x\<bar> < 2 powi (- 1022)"
  shows "expo x = - 1022"
  using assms by (simp only: expo_def if_True)

lemma expo_bounds:
  assumes "2 powi (- 1022) \<le> \<bar>x\<bar>"
  shows "2 powi expo x \<le> \<bar>x\<bar>" "\<bar>x\<bar> < 2 powi (expo x + 1)" "- 1022 \<le> expo x"
proof -
  have pos: "0 < \<bar>x\<bar>" using assms two_powi_pos[of "- 1022"] by linarith
  define k where "k = \<lfloor>log 2 \<bar>x\<bar>\<rfloor>"
  have k: "2 powi k \<le> \<bar>x\<bar> \<and> \<bar>x\<bar> < 2 powi (k + 1)"
    using floor_log2_iff[OF pos, of k] by (simp add: k_def)
  have n: "\<not> \<bar>x\<bar> < 2 powi (- 1022)" using assms by linarith
  have e: "expo x = k" using n by (simp only: expo_def if_False k_def)
  have "- 1022 \<le> k"
  proof (rule ccontr)
    assume "\<not> - 1022 \<le> k"
    then have "k + 1 \<le> - 1022" by simp
    then have "(2::real) powi (k + 1) \<le> 2 powi (- 1022)" by (intro power_int_increasing) simp_all
    with k assms show False by linarith
  qed
  then show "2 powi expo x \<le> \<bar>x\<bar>" "\<bar>x\<bar> < 2 powi (expo x + 1)" "- 1022 \<le> expo x"
    using k by (simp_all only: e)
qed

lemma rne_eqI:
  assumes "\<bar>y - of_int k\<bar> < 1 / 2"
  shows "rne y = k"
proof (cases "of_int k \<le> y")
  case True
  with assms have "\<lfloor>y\<rfloor> = k" by (intro floor_unique) linarith+
  with assms True show ?thesis by (simp add: rne_def)
next
  case False
  with assms have f: "\<lfloor>y\<rfloor> = k - 1" by (intro floor_unique) (simp, linarith)+
  with assms False have "1 / 2 < y - of_int \<lfloor>y\<rfloor>" by simp
  with f show ?thesis by (simp add: rne_def)
qed

lemma rne_tie_even:
  assumes "y = of_int k + 1 / 2" "even k"
  shows "rne y = k"
proof -
  have "\<lfloor>y\<rfloor> = k" unfolding assms(1) by (intro floor_unique) simp_all
  with assms show ?thesis by (simp add: rne_def)
qed

lemma rne_tie_odd:
  assumes "y = of_int k - 1 / 2" "even k"
  shows "rne y = k"
proof -
  have f: "\<lfloor>y\<rfloor> = k - 1" unfolding assms(1) by (intro floor_unique) simp_all
  with assms show ?thesis by (simp add: rne_def)
qed

lemma rne_of_int [simp]: "rne (of_int k) = k"
  by (rule rne_eqI) simp

lemma fl_zero [simp]: "fl 0 = 0"
  by (simp add: fl_def)

lemma fl_eqI:
  assumes "2 powi e \<le> \<bar>x\<bar>" "\<bar>x\<bar> < 2 powi (e + 1)" "- 1022 \<le> e"
    "\<bar>x / 2 powi (e - 52) - of_int k\<bar> < 1 / 2"
  shows "fl x = of_int k * 2 powi (e - 52)"
proof -
  have "0 < \<bar>x\<bar>" using assms(1) two_powi_pos[of e] by linarith
  then have "x \<noteq> 0" by simp
  moreover have "quantum x = 2 powi (e - 52)"
    using expo_eqI[OF assms(1,2,3)] by (simp add: quantum_def)
  ultimately show ?thesis using rne_eqI[OF assms(4)] by (simp add: fl_def)
qed

lemma fl_tieI:
  assumes "2 powi e \<le> \<bar>x\<bar>" "\<bar>x\<bar> < 2 powi (e + 1)" "- 1022 \<le> e"
    "\<bar>x / 2 powi (e - 52) - of_int k\<bar> = 1 / 2" "even k"
  shows "fl x = of_int k * 2 powi (e - 52)"
proof -
  have "0 < \<bar>x\<bar>" using assms(1) two_powi_pos[of e] by linarith
  then have "x \<noteq> 0" by simp
  moreover have "quantum x = 2 powi (e - 52)"
    using expo_eqI[OF assms(1,2,3)] by (simp add: quantum_def)
  moreover have "rne (x / 2 powi (e - 52)) = k"
  proof (cases "of_int k \<le> x / 2 powi (e - 52)")
    case True
    with assms(4) have "x / 2 powi (e - 52) = of_int k + 1 / 2" by linarith
    then show ?thesis using assms(5) by (rule rne_tie_even)
  next
    case False
    with assms(4) have "x / 2 powi (e - 52) = of_int k - 1 / 2" by linarith
    then show ?thesis using assms(5) by (rule rne_tie_odd)
  qed
  ultimately show ?thesis by (simp add: fl_def)
qed


lemma rne_cases: "rne y = \<lfloor>y\<rfloor> \<or> rne y = \<lfloor>y\<rfloor> + 1"
  by (simp add: rne_def)

lemma rne_mono:
  assumes "y \<le> y'"
  shows "rne y \<le> rne y'"
proof (cases "\<lfloor>y\<rfloor> < \<lfloor>y'\<rfloor>")
  case True
  have "rne y \<le> \<lfloor>y\<rfloor> + 1" using rne_cases[of y] by linarith
  moreover have "\<lfloor>y'\<rfloor> \<le> rne y'" using rne_cases[of y'] by linarith
  ultimately show ?thesis using True by linarith
next
  case False
  moreover have "\<lfloor>y\<rfloor> \<le> \<lfloor>y'\<rfloor>" using assms by (rule floor_mono)
  ultimately have f: "\<lfloor>y'\<rfloor> = \<lfloor>y\<rfloor>" by linarith
  have d: "y - of_int \<lfloor>y\<rfloor> \<le> y' - of_int \<lfloor>y\<rfloor>" using assms by simp
  show ?thesis
  proof (cases "rne y = \<lfloor>y\<rfloor>")
    case True
    then show ?thesis using rne_cases[of y'] f by linarith
  next
    case False
    then have up: "rne y = \<lfloor>y\<rfloor> + 1" using rne_cases[of y] by simp
    then have c: "\<not> y - of_int \<lfloor>y\<rfloor> < 1 / 2" by (auto simp: rne_def)
    have "rne y' = \<lfloor>y\<rfloor> + 1"
    proof (cases "1 / 2 < y' - of_int \<lfloor>y\<rfloor>")
      case True
      then show ?thesis using f by (simp add: rne_def)
    next
      case False
      with c d have e: "y' - of_int \<lfloor>y\<rfloor> = 1 / 2" "y - of_int \<lfloor>y\<rfloor> = 1 / 2" by linarith+
      with up have "odd \<lfloor>y\<rfloor>" by (auto simp: rne_def split: if_splits)
      with e(1) f show ?thesis by (simp add: rne_def)
    qed
    with up show ?thesis by simp
  qed
qed

lemma rne_neg: "rne (- y) = - rne y"
proof (cases "y = of_int \<lfloor>y\<rfloor>")
  case True
  then obtain k where "y = of_int k" ..
  then show ?thesis using rne_of_int[of "- k"] by simp
next
  case False
  then have lt: "of_int \<lfloor>y\<rfloor> < y" using of_int_floor_le[of y] by linarith
  have up: "y < of_int \<lfloor>y\<rfloor> + 1" by linarith
  have "\<lfloor>- y\<rfloor> = - \<lfloor>y\<rfloor> - 1"
  proof (rule floor_unique)
    have c: "real_of_int (- \<lfloor>y\<rfloor> - 1) = - real_of_int \<lfloor>y\<rfloor> - 1" by simp
    show "of_int (- \<lfloor>y\<rfloor> - 1) \<le> - y" unfolding c using up by linarith
    show "- y < of_int (- \<lfloor>y\<rfloor> - 1) + 1" unfolding c using lt by linarith
  qed
  then have f: "\<lfloor>- y\<rfloor> = - \<lfloor>y\<rfloor> - 1"
    and d: "- y - of_int \<lfloor>- y\<rfloor> = 1 - (y - of_int \<lfloor>y\<rfloor>)" by simp_all
  consider "y - of_int \<lfloor>y\<rfloor> < 1 / 2" | "1 / 2 < y - of_int \<lfloor>y\<rfloor>" | "y - of_int \<lfloor>y\<rfloor> = 1 / 2"
    by linarith
  then show ?thesis
  proof cases
    case 1
    then have "rne y = \<lfloor>y\<rfloor>" by (simp add: rne_def)
    moreover from 1 d have "1 / 2 < - y - of_int \<lfloor>- y\<rfloor>" by linarith
    then have "rne (- y) = \<lfloor>- y\<rfloor> + 1" by (simp only: rne_def) simp
    ultimately show ?thesis using f by simp
  next
    case 2
    then have "rne y = \<lfloor>y\<rfloor> + 1" by (simp add: rne_def)
    moreover from 2 d have "- y - of_int \<lfloor>- y\<rfloor> < 1 / 2" by linarith
    then have "rne (- y) = \<lfloor>- y\<rfloor>" by (simp only: rne_def) simp
    ultimately show ?thesis using f by simp
  next
    case 3
    with d have d': "- y - of_int \<lfloor>- y\<rfloor> = 1 / 2" by linarith
    have a: "rne y = (if even \<lfloor>y\<rfloor> then \<lfloor>y\<rfloor> else \<lfloor>y\<rfloor> + 1)"
      using 3 by (simp add: rne_def)
    have b: "rne (- y) = (if even \<lfloor>- y\<rfloor> then \<lfloor>- y\<rfloor> else \<lfloor>- y\<rfloor> + 1)"
      using d' by (simp only: rne_def) simp
    show ?thesis unfolding a b f by (cases "even \<lfloor>y\<rfloor>") simp_all
  qed
qed

lemma expo_neg [simp]: "expo (- x) = expo x"
  by (simp add: expo_def)

lemma quantum_neg [simp]: "quantum (- x) = quantum x"
  by (simp add: quantum_def)

lemma fl_neg: "fl (- x) = - fl x"
  by (simp add: fl_def rne_neg)

lemma fl_nonneg:
  assumes "0 \<le> x"
  shows "0 \<le> fl x"
proof (cases "x = 0")
  case True
  then show ?thesis by simp
next
  case False
  have "0 \<le> x / quantum x" using assms quantum_pos[of x] by simp
  then have "rne 0 \<le> rne (x / quantum x)" by (rule rne_mono)
  then have "0 \<le> rne (x / quantum x)" using rne_of_int[of 0] by simp
  then show ?thesis using False quantum_pos[of x] by (simp add: fl_def)
qed

lemma two_powi_add: "(2::real) powi (a + b) = 2 powi a * 2 powi b"
  by (rule power_int_add) simp

lemma two_powi_le_iff: "(2::real) powi a \<le> 2 powi b \<longleftrightarrow> a \<le> b"
proof
  assume le: "(2::real) powi a \<le> 2 powi b"
  show "a \<le> b"
  proof (rule ccontr)
    assume "\<not> a \<le> b"
    then have "(2::real) powi b < 2 powi a" by (intro power_int_strict_increasing) simp_all
    with le show False by linarith
  qed
next
  assume "a \<le> b"
  then show "(2::real) powi a \<le> 2 powi b" by (intro power_int_increasing) simp_all
qed

lemma two_powi_nat: "0 \<le> k \<Longrightarrow> (2::real) powi k = of_int (2 ^ nat k)"
  using power_int_of_nat[of "2::real" "nat k"] by simp

text \<open>The scaled value \<open>x / quantum x\<close> lies within \<open>2^53\<close> in magnitude.\<close>

lemma scaled_bound: "\<bar>x / quantum x\<bar> \<le> 2 ^ 53"
proof (cases "\<bar>x\<bar> < 2 powi (- 1022)")
  case True
  then have q: "quantum x = 2 powi (- 1074)" by (simp add: quantum_def expo_subnormal)
  have "(2::real) powi (- 1022) = 2 powi 52 * 2 powi (- 1074)"
    using two_powi_add[of 52 "- 1074"] by simp
  with True have "\<bar>x\<bar> < 2 powi 52 * quantum x" by (simp add: q)
  then have "\<bar>x\<bar> / quantum x < 2 powi 52" using quantum_pos[of x] by (simp add: field_simps)
  moreover have "(2::real) powi 52 \<le> 2 ^ 53" by simp
  ultimately show ?thesis using quantum_pos[of x] by simp
next
  case False
  then have n: "2 powi (- 1022) \<le> \<bar>x\<bar>" by simp
  have "53 + (expo x - 52) = expo x + 1" by simp
  from two_powi_add[of 53 "expo x - 52", unfolded this]
  have "(2::real) powi (expo x + 1) = 2 powi 53 * 2 powi (expo x - 52)" .
  with expo_bounds(2)[OF n] have "\<bar>x\<bar> < 2 powi 53 * quantum x" by (simp add: quantum_def)
  then have "\<bar>x\<bar> / quantum x < 2 powi 53" using quantum_pos[of x] by (simp add: field_simps)
  then show ?thesis using quantum_pos[of x] by simp
qed

lemma rne_bound: "\<bar>rne (x / quantum x)\<bar> \<le> 2 ^ 53"
proof -
  from scaled_bound[of x, unfolded abs_le_iff]
  have a: "x / quantum x \<le> of_int (2 ^ 53)" "of_int (- (2 ^ 53)) \<le> x / quantum x"
    by simp_all
  from rne_mono[OF a(1)] rne_mono[OF a(2)] show ?thesis
    by (simp only: rne_of_int abs_le_iff) simp
qed

lemma fl_multiple:
  assumes "x = of_int j * quantum x"
  shows "fl x = x"
proof (cases "x = 0")
  case True
  then show ?thesis by simp
next
  case False
  have "x / quantum x = of_int j" using assms quantum_pos[of x] by (simp add: field_simps)
  then have "rne (x / quantum x) = j" by simp
  with assms False show ?thesis by (simp add: fl_def)
qed

lemma fl_exact:
  assumes "\<bar>m\<bar> \<le> 2 ^ 53" "- 1074 \<le> k"
  shows "fl (of_int m * 2 powi k) = of_int m * 2 powi k"
proof (cases "m = 0")
  case True
  then show ?thesis by simp
next
  case False
  let ?y = "real_of_int m * 2 powi k"
  have ym: "\<bar>?y\<bar> = \<bar>real_of_int m\<bar> * 2 powi k"
    using two_powi_pos[of k] by (simp add: abs_mult)
  have scale: "?y = of_int (m * 2 ^ nat d) * 2 powi (k - d)" if "0 \<le> d" for d
  proof -
    have "(2::real) powi k = 2 powi d * 2 powi (k - d)" using two_powi_add[of d "k - d"] by simp
    then show ?thesis using two_powi_nat[OF that] by simp
  qed
  show ?thesis
  proof (cases "\<bar>?y\<bar> < 2 powi (- 1022)")
    case True
    then have q: "quantum ?y = 2 powi (- 1074)" by (simp add: quantum_def expo_subnormal)
    have "0 \<le> k + 1074" using assms(2) by simp
    from scale[OF this] have "?y = of_int (m * 2 ^ nat (k + 1074)) * quantum ?y" by (simp add: q)
    then show ?thesis by (rule fl_multiple)
  next
    case n: False
    then have n: "2 powi (- 1022) \<le> \<bar>?y\<bar>" by simp
    note b = expo_bounds[OF n]
    have "\<bar>real_of_int m\<bar> \<le> 2 ^ 53" using assms(1) by (metis of_int_abs of_int_le_numeral_power_cancel_iff)
    then have "\<bar>?y\<bar> \<le> 2 ^ 53 * 2 powi k" unfolding ym using two_powi_pos[of k] by simp
    also have "\<dots> = 2 powi (53 + k)" using two_powi_add[of 53 k] by simp
    finally have "(2::real) powi expo ?y \<le> 2 powi (53 + k)" using b(1) by linarith
    then have le: "expo ?y \<le> 53 + k" by (simp only: two_powi_le_iff)
    show ?thesis
    proof (cases "expo ?y = 53 + k")
      case False
      with le have "0 \<le> k - (expo ?y - 52)" by simp
      from scale[OF this] have "?y = of_int (m * 2 ^ nat (k - (expo ?y - 52))) * quantum ?y"
        by (simp add: quantum_def)
      then show ?thesis by (rule fl_multiple)
    next
      case True
      have "(2::real) powi (53 + k) = 2 ^ 53 * 2 powi k" using two_powi_add[of 53 k] by simp
      with b(1) True have "2 ^ 53 * 2 powi k \<le> \<bar>real_of_int m\<bar> * 2 powi k" by (simp add: ym)
      then have "2 ^ 53 \<le> \<bar>real_of_int m\<bar>" using two_powi_pos[of k] by simp
      then have "2 ^ 53 \<le> \<bar>m\<bar>" by (metis of_int_abs numeral_power_le_of_int_cancel_iff)
      with assms(1) have m: "\<bar>m\<bar> = 2 ^ 53" by simp
      then have "m = 2 * 2 ^ 52 \<or> m = 2 * (- (2 ^ 52))" by (simp add: abs_if split: if_splits)
      then obtain j where j: "m = 2 * j" by blast
      have "(2::real) powi k = 2 powi (- 1) * 2 powi (k + 1)" using two_powi_add[of "- 1" "k + 1"] by simp
      then have "?y = of_int j * 2 powi (k + 1)" by (simp add: j)
      moreover have "53 + k - 52 = k + 1" by simp
      then have "quantum ?y = 2 powi (k + 1)" by (simp only: quantum_def True)
      ultimately have "?y = of_int j * quantum ?y" by simp
      then show ?thesis by (rule fl_multiple)
    qed
  qed
qed

lemma expo_ge: "- 1022 \<le> expo x"
proof (cases "\<bar>x\<bar> < 2 powi (- 1022)")
  case True
  then show ?thesis by (simp only: expo_subnormal)
next
  case False
  then have "2 powi (- 1022) \<le> \<bar>x\<bar>" by simp
  then show ?thesis by (rule expo_bounds(3))
qed

lemma fl_idem [simp]: "fl (fl x) = fl x"
proof (cases "x = 0")
  case True
  then show ?thesis by simp
next
  case False
  then have "fl x = of_int (rne (x / quantum x)) * 2 powi (expo x - 52)"
    by (simp add: fl_def quantum_def)
  moreover have "- 1074 \<le> expo x - 52" using expo_ge[of x] by simp
  ultimately show ?thesis using fl_exact[OF rne_bound[of x]] by simp
qed

lemma fl_int:
  assumes "\<bar>m\<bar> \<le> 2 ^ 53"
  shows "fl (of_int m) = of_int m"
  using fl_exact[OF assms, of 0] by simp

lemma fl_dyadic:
  assumes "\<bar>m\<bar> \<le> 2 ^ 53" "k \<le> 1074"
  shows "fl (of_int m / 2 ^ k) = of_int m / 2 ^ k"
proof -
  have "(2::real) powi (- int k) = 1 / 2 ^ k"
    by (simp add: power_int_minus power_int_of_nat field_simps)
  moreover have "- 1074 \<le> - int k" using assms(2) by simp
  ultimately show ?thesis using fl_exact[OF assms(1), of "- int k"] by simp
qed

lemma expo_mono:
  assumes "\<bar>x\<bar> \<le> \<bar>y\<bar>"
  shows "expo x \<le> expo y"
proof (cases "\<bar>x\<bar> < 2 powi (- 1022)")
  case True
  then show ?thesis using expo_ge[of y] by (simp only: expo_subnormal)
next
  case False
  then have nx: "2 powi (- 1022) \<le> \<bar>x\<bar>" by simp
  with assms have ny: "2 powi (- 1022) \<le> \<bar>y\<bar>" by linarith
  have "(2::real) powi expo x \<le> \<bar>x\<bar>" by (rule expo_bounds(1)[OF nx])
  also have "\<dots> \<le> \<bar>y\<bar>" by (rule assms)
  also have "\<dots> < 2 powi (expo y + 1)" by (rule expo_bounds(2)[OF ny])
  finally have "(2::real) powi expo x < 2 powi (expo y + 1)" .
  then have "\<not> (2::real) powi (expo y + 1) \<le> 2 powi expo x" by linarith
  then have "\<not> expo y + 1 \<le> expo x" unfolding two_powi_le_iff .
  then show ?thesis by linarith
qed

lemma fl_upper:
  assumes "0 < x"
  shows "fl x \<le> 2 powi (expo x + 1)"
proof -
  from scaled_bound[of x, unfolded abs_le_iff] have "x / quantum x \<le> of_int (2 ^ 53)" by simp
  from rne_mono[OF this] have "rne (x / quantum x) \<le> 2 ^ 53" by (simp only: rne_of_int)
  then have "real_of_int (rne (x / quantum x)) \<le> 2 ^ 53"
    by (metis of_int_le_numeral_power_cancel_iff)
  then have "fl x \<le> 2 ^ 53 * quantum x"
    using assms quantum_pos[of x] by (simp add: fl_def)
  moreover have "53 + (expo x - 52) = expo x + 1" by simp
  from two_powi_add[of 53 "expo x - 52", unfolded this]
  have "(2::real) powi (expo x + 1) = 2 ^ 53 * quantum x" by (simp add: quantum_def)
  ultimately show ?thesis by simp
qed

lemma fl_lower:
  assumes "2 powi (- 1022) \<le> x"
  shows "2 powi expo x \<le> fl x"
proof -
  have pos: "0 < x" using assms two_powi_pos[of "- 1022"] by linarith
  then have ax: "\<bar>x\<bar> = x" by simp
  from assms have n: "2 powi (- 1022) \<le> \<bar>x\<bar>" by (simp add: ax)
  have "52 + (expo x - 52) = expo x" by simp
  from two_powi_add[of 52 "expo x - 52", unfolded this]
  have e: "(2::real) powi expo x = 2 ^ 52 * quantum x" by (simp add: quantum_def)
  with expo_bounds(1)[OF n] have "2 ^ 52 * quantum x \<le> x" by (simp add: ax)
  then have "of_int (2 ^ 52) \<le> x / quantum x" using quantum_pos[of x] by (simp add: field_simps)
  from rne_mono[OF this] have "2 ^ 52 \<le> rne (x / quantum x)" by (simp only: rne_of_int)
  then have "2 ^ 52 \<le> real_of_int (rne (x / quantum x))"
    by (metis numeral_power_le_of_int_cancel_iff)
  then have "2 ^ 52 * quantum x \<le> fl x"
    using pos quantum_pos[of x] by (simp add: fl_def)
  with e show ?thesis by simp
qed

lemma fl_mono_pos:
  assumes "0 < x" "x \<le> y"
  shows "fl x \<le> fl y"
proof -
  have y: "0 < y" using assms by linarith
  have le: "expo x \<le> expo y" using assms by (intro expo_mono) simp
  show ?thesis
  proof (cases "expo x = expo y")
    case True
    then have q: "quantum y = quantum x" by (simp add: quantum_def)
    have "x / quantum x \<le> y / quantum x" using assms(2) quantum_pos[of x] by (simp add: field_simps)
    from rne_mono[OF this] have "real_of_int (rne (x / quantum x)) \<le> real_of_int (rne (y / quantum x))"
      by simp
    then show ?thesis using assms(1) y quantum_pos[of x] by (simp add: fl_def q)
  next
    case False
    with le have lt: "expo x + 1 \<le> expo y" by simp
    have "\<not> \<bar>y\<bar> < 2 powi (- 1022)"
    proof
      assume "\<bar>y\<bar> < 2 powi (- 1022)"
      then have "expo y = - 1022" by (rule expo_subnormal)
      with lt expo_ge[of x] show False by simp
    qed
    then have ny: "2 powi (- 1022) \<le> y" using y by simp
    have "fl x \<le> 2 powi (expo x + 1)" by (rule fl_upper[OF assms(1)])
    also have "\<dots> \<le> 2 powi expo y" using lt by (simp only: two_powi_le_iff)
    also have "\<dots> \<le> fl y" by (rule fl_lower[OF ny])
    finally show ?thesis .
  qed
qed

lemma fl_mono:
  assumes "x \<le> y"
  shows "fl x \<le> fl y"
proof -
  consider "0 < x" | "x \<le> 0" "0 \<le> y" | "y < 0" by linarith
  then show ?thesis
  proof cases
    case 1
    then show ?thesis using assms by (rule fl_mono_pos)
  next
    case 2
    from 2(1) have "0 \<le> fl (- x)" by (intro fl_nonneg) simp
    then have "fl x \<le> 0" by (simp add: fl_neg)
    moreover have "0 \<le> fl y" using 2(2) by (rule fl_nonneg)
    ultimately show ?thesis by linarith
  next
    case 3
    then have "0 < - y" "- y \<le> - x" using assms by simp_all
    then have "fl (- y) \<le> fl (- x)" by (rule fl_mono_pos)
    then show ?thesis by (simp add: fl_neg)
  qed
qed

lemma fl_le_double:
  assumes "0 \<le> x"
  shows "fl x \<le> 2 * x"
proof (cases "2 powi (- 1022) \<le> x")
  case True
  then have pos: "0 < x" using two_powi_pos[of "- 1022"] by linarith
  then have n: "2 powi (- 1022) \<le> \<bar>x\<bar>" using True by simp
  have "fl x \<le> 2 powi (expo x + 1)" by (rule fl_upper[OF pos])
  also have "\<dots> = 2 * 2 powi expo x" using two_powi_add[of 1 "expo x"] by (simp add: add.commute)
  also have "\<dots> \<le> 2 * x" using expo_bounds(1)[OF n] pos by simp
  finally show ?thesis .
next
  case False
  show ?thesis
  proof (cases "x = 0")
    case True
    then show ?thesis by simp
  next
    case nz: False
    with assms have pos: "0 < x" by simp
    from False pos have "\<bar>x\<bar> < 2 powi (- 1022)" by simp
    then have q: "quantum x = 2 powi (- 1074)" by (simp add: quantum_def expo_subnormal)
    define t where "t = x / quantum x"
    have t: "0 < t" using pos quantum_pos[of x] by (simp add: t_def)
    have "real_of_int (rne t) \<le> 2 * t"
    proof (cases "t < 1 / 2")
      case True
      with t have "\<lfloor>t\<rfloor> = 0" by (intro floor_unique) simp_all
      with True have "rne t = 0" by (simp add: rne_def)
      with t show ?thesis by simp
    next
      case False
      have "rne t \<le> \<lfloor>t\<rfloor> + 1" using rne_cases[of t] by linarith
      then have "real_of_int (rne t) \<le> real_of_int \<lfloor>t\<rfloor> + 1" by linarith
      show ?thesis
      proof (cases "t < 1")
        case True
        with t have "\<lfloor>t\<rfloor> = 0" by (intro floor_unique) simp_all
        with \<open>real_of_int (rne t) \<le> real_of_int \<lfloor>t\<rfloor> + 1\<close> False show ?thesis by simp
      next
        case False
        have "real_of_int \<lfloor>t\<rfloor> \<le> t" by (rule of_int_floor_le)
        with \<open>real_of_int (rne t) \<le> real_of_int \<lfloor>t\<rfloor> + 1\<close> False show ?thesis by linarith
      qed
    qed
    then have "real_of_int (rne t) * quantum x \<le> 2 * t * quantum x"
      using quantum_pos[of x] by simp
    then show ?thesis using nz quantum_pos[of x] by (simp add: fl_def t_def)
  qed
qed

lemma fl_threshold: "fl (5 / 1000) = 5764607523034235 / 2 ^ 60"
  using fl_eqI[of "- 8" "5 / 1000" 5764607523034235] by (simp add: power_int_minus)

lemma fl_threshold_reduced: "fl (1 / 200) = 5764607523034235 / 2 ^ 60"
  using fl_threshold by simp


section \<open>The prime generator\<close>

subsection \<open>Prime divisors and the next prime\<close>

lemma prime_factor_nat:
  "2 \<le> n \<Longrightarrow> \<exists>q. is_prime q \<and> q dvd int n \<and> q \<le> int n"
proof (induction n rule: less_induct)
  case (less n)
  show ?case
  proof (cases "is_prime (int n)")
    case True
    then show ?thesis by auto
  next
    case False
    with less.prems obtain d where d: "2 \<le> d" "d < int n" "d dvd int n"
      by (auto simp: is_prime_def)
    then have "2 \<le> nat d" "nat d < n" by auto
    from less.IH[OF this(2) this(1)] obtain q where "is_prime q" "q dvd int (nat d)" "q \<le> int (nat d)"
      by blast
    with d show ?thesis
      by (intro exI[of _ q]) (auto intro: dvd_trans)
  qed
qed

lemma prime_factor:
  assumes "2 \<le> (n::int)"
  shows "\<exists>q. is_prime q \<and> q dvd n \<and> q \<le> n"
  using prime_factor_nat[of "nat n"] assms by auto

lemma prime_above: "\<exists>q. is_prime q \<and> n \<le> q"
proof -
  define m where "m = nat n"
  have "2 \<le> (fact m + 1 :: int)"
    using fact_ge_1[of m, where ?'a = int] by linarith
  from prime_factor[OF this] obtain q where q: "is_prime q" "q dvd fact m + 1" "q \<le> fact m + 1"
    by blast
  have "\<not> q \<le> int m"
  proof
    assume le: "q \<le> int m"
    from q(1) have q2: "2 \<le> q" by (simp add: is_prime_def)
    then have "nat q dvd fact m" using le by (intro dvd_fact) auto
    then have "int (nat q) dvd int (fact m)" using int_dvd_int_iff by blast
    then have "q dvd (fact m :: int)" using q2 by simp
    with q(2) have "q dvd 1" using dvd_add_right_iff by blast
    with q2 show False by auto
  qed
  then have "n \<le> q" by (cases "0 \<le> n") (auto simp: m_def)
  with q(1) show ?thesis by blast
qed

lemma next_prime:
  "\<exists>q. is_prime q \<and> n \<le> q \<and> (\<forall>m. n \<le> m \<and> m < q \<longrightarrow> \<not> is_prime m)"
proof -
  obtain q0 where q0: "is_prime q0" "n \<le> q0" using prime_above by blast
  define P where "P d = is_prime (n + int d)" for d
  have "P (nat (q0 - n))" using q0 by (simp add: P_def)
  then have L1: "P (LEAST d. P d)" by (rule LeastI)
  have L2: "\<not> P d" if "d < (LEAST d. P d)" for d using that by (rule not_less_Least)
  define q where "q = n + int (LEAST d. P d)"
  have "is_prime q" using L1 by (simp add: P_def q_def)
  moreover have "n \<le> q" by (simp add: q_def)
  moreover have "\<not> is_prime m" if "n \<le> m" "m < q" for m
  proof -
    have "nat (m - n) < (LEAST d. P d)" using that by (simp add: q_def)
    from L2[OF this] show ?thesis using that by (simp add: P_def)
  qed
  ultimately show ?thesis by blast
qed


subsection \<open>The loops\<close>

lemma primes_inner_scan:
  assumes "\<forall>d\<in>set p. d \<noteq> 0" "k = int (length p)" "0 \<le> i" "i \<le> k"
  shows "\<exists>j. primes_inner p k n i = Inr j \<and> i \<le> j \<and> j \<le> k \<and>
           (j = k \<longleftrightarrow> (\<forall>t. i \<le> t \<and> t < k \<longrightarrow> n mod (p ! nat t) \<noteq> 0))"
  using assms
proof (induction p k n i rule: primes_inner.induct)
  case (1 p k n i)
  show ?case
  proof (cases "i < k")
    case False
    then have "primes_inner p k n i = Inr i" by (subst primes_inner.simps) simp
    moreover have "i = k" using False "1.prems"(4) by linarith
    ultimately show ?thesis by (intro exI[of _ i]) simp
  next
    case True
    with "1.prems" have g: "getitem p i = Inr (p ! nat i)" by (simp add: getitem_def)
    from True "1.prems" have nz: "p ! nat i \<noteq> 0" by (simp add: nth_mem)
    show ?thesis
    proof (cases "n mod (p ! nat i) \<noteq> 0")
      case False
      with True g nz have "primes_inner p k n i = Inr i"
        by (subst primes_inner.simps) simp
      moreover have "\<not> (\<forall>t. i \<le> t \<and> t < k \<longrightarrow> n mod (p ! nat t) \<noteq> 0)"
        using False True by (intro notI) (drule spec[of _ i], simp)
      ultimately show ?thesis using True by (intro exI[of _ i]) simp
    next
      case nd: True
      have b: "0 \<le> i + 1" "i + 1 \<le> k" using True "1.prems"(3) by auto
      from "1.IH"[OF True g nz nd "1.prems"(1,2) b]
      obtain j where jj: "primes_inner p k n (i + 1) = Inr j \<and> i + 1 \<le> j \<and> j \<le> k \<and>
        (j = k \<longleftrightarrow> (\<forall>t. i + 1 \<le> t \<and> t < k \<longrightarrow> n mod (p ! nat t) \<noteq> 0))" ..
      note j = jj[THEN conjunct1] jj[THEN conjunct2, THEN conjunct1]
        jj[THEN conjunct2, THEN conjunct2, THEN conjunct1]
        jj[THEN conjunct2, THEN conjunct2, THEN conjunct2]
      have iff: "(\<forall>t. i \<le> t \<and> t < k \<longrightarrow> n mod (p ! nat t) \<noteq> 0) \<longleftrightarrow>
            (\<forall>t. i + 1 \<le> t \<and> t < k \<longrightarrow> n mod (p ! nat t) \<noteq> 0)" (is "?A \<longleftrightarrow> ?B")
      proof
        assume a: ?A
        show ?B
        proof (intro allI impI)
          fix t assume "i + 1 \<le> t \<and> t < k"
          then have "i \<le> t \<and> t < k" by linarith
          then show "n mod (p ! nat t) \<noteq> 0" by (rule a[rule_format])
        qed
      next
        assume b: ?B
        show ?A
        proof (intro allI impI)
          fix t assume t: "i \<le> t \<and> t < k"
          then consider "t = i" | "i + 1 \<le> t" by linarith
          then show "n mod (p ! nat t) \<noteq> 0"
          proof cases
            case 1
            with nd show ?thesis by simp
          next
            case 2
            with t have "i + 1 \<le> t \<and> t < k" by simp
            then show ?thesis by (rule b[rule_format])
          qed
        qed
      qed
      have eq: "primes_inner p k n i = primes_inner p k n (i + 1)"
        using True g nz nd by (subst primes_inner.simps) simp
      have "i \<le> j" using j(2) by linarith
      with j iff eq show ?thesis by (intro exI[of _ j]) simp
    qed
  qed
qed

lemma no_prime_divisor_iff:
  assumes "2 \<le> n"
  shows "(\<forall>q. is_prime q \<and> q < n \<longrightarrow> \<not> q dvd n) \<longleftrightarrow> is_prime n"
proof
  assume np: "\<forall>q. is_prime q \<and> q < n \<longrightarrow> \<not> q dvd n"
  show "is_prime n"
  proof (rule ccontr)
    assume "\<not> is_prime n"
    with assms obtain d where d: "2 \<le> d" "d < n" "d dvd n" by (auto simp: is_prime_def)
    from prime_factor[OF d(1)] obtain q where "is_prime q" "q dvd d" "q \<le> d" by blast
    then have "q < n" "q dvd n" using d by (auto intro: dvd_trans)
    with np \<open>is_prime q\<close> show False by blast
  qed
next
  assume "is_prime n"
  then show "\<forall>q. is_prime q \<and> q < n \<longrightarrow> \<not> q dvd n"
    by (auto simp: is_prime_def)
qed

lemma primes_inner_inv:
  assumes "primes_inv s"
  shows "\<exists>j. primes_inner (ps_p s) (ps_k s) (ps_n s) 0 = Inr j \<and>
           (j = ps_k s \<longleftrightarrow> is_prime (ps_n s))"
proof -
  from assms have set: "set (ps_p s) = {q. is_prime q \<and> q < ps_n s}"
    and k: "ps_k s = int (length (ps_p s))" and n2: "2 \<le> ps_n s"
    by (simp_all add: primes_inv_def)
  have nz: "\<forall>d\<in>set (ps_p s). d \<noteq> 0" using set by (auto simp: is_prime_def)
  have b: "(0::int) \<le> 0" "0 \<le> ps_k s" using k by auto
  from primes_inner_scan[OF nz k b, of "ps_n s"]
  obtain j where jj: "primes_inner (ps_p s) (ps_k s) (ps_n s) 0 = Inr j \<and> 0 \<le> j \<and> j \<le> ps_k s \<and>
    (j = ps_k s \<longleftrightarrow> (\<forall>t. 0 \<le> t \<and> t < ps_k s \<longrightarrow> ps_n s mod (ps_p s ! nat t) \<noteq> 0))" ..
  note j = jj[THEN conjunct1] jj[THEN conjunct2, THEN conjunct2, THEN conjunct2]
  have "(\<forall>t. 0 \<le> t \<and> t < ps_k s \<longrightarrow> ps_n s mod (ps_p s ! nat t) \<noteq> 0) \<longleftrightarrow>
        (\<forall>d\<in>set (ps_p s). \<not> d dvd ps_n s)"
  proof
    assume a: "\<forall>t. 0 \<le> t \<and> t < ps_k s \<longrightarrow> ps_n s mod (ps_p s ! nat t) \<noteq> 0"
    show "\<forall>d\<in>set (ps_p s). \<not> d dvd ps_n s"
    proof
      fix d assume "d \<in> set (ps_p s)"
      then obtain t where t: "t < length (ps_p s)" "ps_p s ! t = d" by (auto simp: in_set_conv_nth)
      with a[rule_format, of "int t"] k show "\<not> d dvd ps_n s" by (auto simp: dvd_eq_mod_eq_0)
    qed
  next
    assume a: "\<forall>d\<in>set (ps_p s). \<not> d dvd ps_n s"
    show "\<forall>t. 0 \<le> t \<and> t < ps_k s \<longrightarrow> ps_n s mod (ps_p s ! nat t) \<noteq> 0"
    proof (intro allI impI)
      fix t assume "0 \<le> t \<and> t < ps_k s"
      with k have "ps_p s ! nat t \<in> set (ps_p s)" by (intro nth_mem) auto
      with a show "ps_n s mod (ps_p s ! nat t) \<noteq> 0" by (auto simp: dvd_eq_mod_eq_0)
    qed
  qed
  also have "\<dots> \<longleftrightarrow> (\<forall>q. is_prime q \<and> q < ps_n s \<longrightarrow> \<not> q dvd ps_n s)"
    unfolding set by simp
  also have "\<dots> \<longleftrightarrow> is_prime (ps_n s)"
    by (rule no_prime_divisor_iff[OF n2])
  finally have "j = ps_k s \<longleftrightarrow> is_prime (ps_n s)" using j(2) by simp
  with j(1) show ?thesis by blast
qed

lemma primes_loop_composite:
  assumes "primes_inv s" "ps_k s < kmax" "\<not> is_prime (ps_n s)"
  shows "primes_loop kmax s = primes_loop kmax (s\<lparr>ps_n := ps_n s + 1\<rparr>)"
    and "primes_inv (s\<lparr>ps_n := ps_n s + 1\<rparr>)"
proof -
  from primes_inner_inv[OF assms(1)] obtain j where
    jj: "primes_inner (ps_p s) (ps_k s) (ps_n s) 0 = Inr j \<and> (j = ps_k s \<longleftrightarrow> is_prime (ps_n s))" ..
  with assms(3) have j: "primes_inner (ps_p s) (ps_k s) (ps_n s) 0 = Inr j" "j \<noteq> ps_k s"
    by simp_all
  show "primes_loop kmax s = primes_loop kmax (s\<lparr>ps_n := ps_n s + 1\<rparr>)"
    using assms(2) j by (subst primes_loop.simps) simp
  have "{q. is_prime q \<and> q < ps_n s + 1} = {q. is_prime q \<and> q < ps_n s}"
  proof (rule Collect_cong)
    fix q
    have "q < ps_n s + 1 \<longleftrightarrow> q < ps_n s \<or> q = ps_n s" by linarith
    with assms(3) show "(is_prime q \<and> q < ps_n s + 1) = (is_prime q \<and> q < ps_n s)" by metis
  qed
  with assms(1) show "primes_inv (s\<lparr>ps_n := ps_n s + 1\<rparr>)"
    by (simp add: primes_inv_def)
qed

lemma primes_loop_prime:
  assumes "primes_inv s" "ps_k s < kmax" "is_prime (ps_n s)"
  shows "primes_loop kmax s = primes_loop kmax (primes_found s)"
    and "primes_inv (primes_found s)"
proof -
  from primes_inner_inv[OF assms(1)] obtain j where
    jj: "primes_inner (ps_p s) (ps_k s) (ps_n s) 0 = Inr j \<and> (j = ps_k s \<longleftrightarrow> is_prime (ps_n s))" ..
  with assms(3) have j: "primes_inner (ps_p s) (ps_k s) (ps_n s) 0 = Inr j" "j = ps_k s"
    by simp_all
  show "primes_loop kmax s = primes_loop kmax (primes_found s)"
    using assms(2) j by (subst primes_loop.simps) (simp add: primes_found_def)
  from assms(1) have set: "set (ps_p s) = {q. is_prime q \<and> q < ps_n s}"
    and srt: "sorted_wrt (<) (ps_p s)"
    by (simp_all add: primes_inv_def)
  have "{q. is_prime q \<and> q < ps_n s + 1} = insert (ps_n s) {q. is_prime q \<and> q < ps_n s}"
  proof (rule set_eqI)
    fix q
    have "q < ps_n s + 1 \<longleftrightarrow> q < ps_n s \<or> q = ps_n s" by linarith
    with assms(3) show "q \<in> {q. is_prime q \<and> q < ps_n s + 1} \<longleftrightarrow>
        q \<in> insert (ps_n s) {q. is_prime q \<and> q < ps_n s}"
      by auto
  qed
  moreover have "sorted_wrt (<) (ps_p s @ [ps_n s])"
    using srt set by (simp add: sorted_wrt_append)
  ultimately show "primes_inv (primes_found s)"
    using assms(1) by (simp add: primes_inv_def primes_found_def)
qed

lemma primes_loop_skip:
  assumes "primes_inv s" "ps_k s < kmax" "is_prime q" "ps_n s \<le> q"
    "\<forall>m. ps_n s \<le> m \<and> m < q \<longrightarrow> \<not> is_prime m"
  shows "\<exists>s'. primes_loop kmax s = primes_loop kmax s' \<and> primes_inv s' \<and>
           ps_k s' = ps_k s + 1 \<and> ps_n s' = q + 1 \<and> ps_p s' = ps_p s @ [q]"
  using assms
proof (induction "nat (q - ps_n s)" arbitrary: s)
  case 0
  then have "ps_n s = q" by simp
  with "0.prems" primes_loop_prime[of s kmax] show ?case
    by (intro exI[of _ "primes_found s"]) (simp add: primes_found_def)
next
  case (Suc d)
  let ?s = "s\<lparr>ps_n := ps_n s + 1\<rparr>"
  from Suc.hyps(2) have lt: "ps_n s < q" by linarith
  with Suc.prems(5) have np: "\<not> is_prime (ps_n s)" by simp
  note step = primes_loop_composite[OF Suc.prems(1,2) np]
  have d: "d = nat (q - ps_n ?s)" using Suc.hyps(2) by simp
  have k: "ps_k ?s < kmax" using Suc.prems(2) by simp
  have le: "ps_n ?s \<le> q" using lt by simp
  have gap: "\<forall>m. ps_n ?s \<le> m \<and> m < q \<longrightarrow> \<not> is_prime m"
  proof (intro allI impI)
    fix m assume "ps_n ?s \<le> m \<and> m < q"
    then have "ps_n s \<le> m \<and> m < q" by simp
    then show "\<not> is_prime m" by (rule Suc.prems(5)[rule_format])
  qed
  from Suc.hyps(1)[OF d step(2) k Suc.prems(3) le gap]
  obtain s' where "primes_loop kmax ?s = primes_loop kmax s' \<and> primes_inv s' \<and>
           ps_k s' = ps_k ?s + 1 \<and> ps_n s' = q + 1 \<and> ps_p s' = ps_p ?s @ [q]" ..
  with step(1) show ?case by (intro exI[of _ s']) simp
qed

lemma primes_loop_total:
  assumes "primes_inv s" "ps_k s \<le> kmax"
  shows "\<exists>s'. primes_loop kmax s = Some (Inr s') \<and> primes_inv s' \<and> ps_k s' = kmax \<and>
           ps_n s \<le> ps_n s'"
  using assms
proof (induction "nat (kmax - ps_k s)" arbitrary: s)
  case 0
  then have "\<not> ps_k s < kmax" by simp
  then have "primes_loop kmax s = Some (Inr s)" by (subst primes_loop.simps) simp
  moreover have "ps_k s = kmax" using 0 by simp
  ultimately show ?case using "0.prems"(1) by (intro exI[of _ s]) simp
next
  case (Suc d)
  then have lt: "ps_k s < kmax" by linarith
  obtain q where q: "is_prime q \<and> ps_n s \<le> q \<and> (\<forall>m. ps_n s \<le> m \<and> m < q \<longrightarrow> \<not> is_prime m)"
    using next_prime[of "ps_n s"] ..
  from primes_loop_skip[OF Suc.prems(1) lt q[THEN conjunct1] q[THEN conjunct2, THEN conjunct1]
      q[THEN conjunct2, THEN conjunct2]]
  obtain s1 where s1: "primes_loop kmax s = primes_loop kmax s1 \<and> primes_inv s1 \<and>
           ps_k s1 = ps_k s + 1 \<and> ps_n s1 = q + 1 \<and> ps_p s1 = ps_p s @ [q]" ..
  have d: "d = nat (kmax - ps_k s1)" using Suc.hyps(2) s1 by simp
  have le: "ps_k s1 \<le> kmax" using lt s1 by simp
  from Suc.hyps(1)[OF d s1[THEN conjunct2, THEN conjunct1] le]
  obtain s' where s': "primes_loop kmax s1 = Some (Inr s') \<and> primes_inv s' \<and> ps_k s' = kmax \<and>
           ps_n s1 \<le> ps_n s'" ..
  have "ps_n s \<le> ps_n s'" using s' s1 q by simp
  with s' s1 show ?case by (intro exI[of _ s']) simp
qed

lemma primes_inv_init: "primes_inv \<lparr>ps_p = [], ps_result = [], ps_k = 0, ps_n = 2\<rparr>"
  by (auto simp: primes_inv_def is_prime_def)

lemma primes_run_total:
  "\<exists>s'. primes_run kmax = Some (Inr s') \<and> primes_inv s' \<and>
     ps_k s' = (if kmax \<le> 0 then 0 else if kmax > 1000 then 1000 else kmax) \<and>
     (kmax \<le> 0 \<longrightarrow> s' = \<lparr>ps_p = [], ps_result = [], ps_k = 0, ps_n = 2\<rparr>)"
proof (cases "kmax \<le> 0")
  case True
  let ?s = "\<lparr>ps_p = [], ps_result = [], ps_k = 0, ps_n = 2\<rparr>"
  from True have "primes_run kmax = Some (Inr ?s)"
    unfolding primes_run_def by (subst primes_loop.simps) simp
  with True primes_inv_init show ?thesis by (intro exI[of _ ?s]) simp
next
  case False
  let ?s = "\<lparr>ps_p = [], ps_result = [], ps_k = 0, ps_n = 2\<rparr>"
  let ?cap = "if kmax > 1000 then 1000 else kmax"
  have "ps_k ?s \<le> ?cap" using False by simp
  from primes_loop_total[OF primes_inv_init this]
  obtain s' where "primes_loop ?cap ?s = Some (Inr s') \<and> primes_inv s' \<and> ps_k s' = ?cap \<and>
           ps_n ?s \<le> ps_n s'" ..
  with False show ?thesis unfolding primes_run_def by (intro exI[of _ s']) simp
qed

lemma primes_inv_result:
  assumes "primes_inv s"
  shows "int (length (ps_result s)) = ps_k s" "sorted_wrt (<) (ps_result s)"
    "\<forall>x\<in>set (ps_result s). is_prime x"
    "\<forall>q. is_prime q \<and> ps_result s \<noteq> [] \<and> q < last (ps_result s) \<longrightarrow> q \<in> set (ps_result s)"
    "ps_result s \<noteq> [] \<longrightarrow> hd (ps_result s) = 2"
proof -
  from assms have r: "ps_result s = ps_p s" and k: "ps_k s = int (length (ps_p s))"
    and srt: "sorted_wrt (<) (ps_p s)" and set: "set (ps_p s) = {q. is_prime q \<and> q < ps_n s}"
    by (simp_all add: primes_inv_def)
  show "int (length (ps_result s)) = ps_k s" using r k by simp
  show "sorted_wrt (<) (ps_result s)" using r srt by simp
  show "\<forall>x\<in>set (ps_result s). is_prime x" using r set by simp
  show "\<forall>q. is_prime q \<and> ps_result s \<noteq> [] \<and> q < last (ps_result s) \<longrightarrow> q \<in> set (ps_result s)"
  proof (intro allI impI)
    fix q assume q: "is_prime q \<and> ps_result s \<noteq> [] \<and> q < last (ps_result s)"
    then have "last (ps_p s) \<in> set (ps_p s)" using r by simp
    then have "last (ps_p s) < ps_n s" using set by simp
    with q r have "q < ps_n s" by simp
    with q set r show "q \<in> set (ps_result s)" by simp
  qed
  show "ps_result s \<noteq> [] \<longrightarrow> hd (ps_result s) = 2"
  proof
    assume "ps_result s \<noteq> []"
    with r obtain h t where ht: "ps_p s = h # t" by (cases "ps_p s") auto
    then have "h \<in> set (ps_p s)" by simp
    with set have h: "is_prime h" "h < ps_n s" by simp_all
    then have h2: "2 \<le> h" by (simp add: is_prime_def)
    have "is_prime 2" by (simp add: is_prime_def)
    with h2 h(2) set have "2 \<in> set (ps_p s)" by simp
    with ht consider "h = 2" | "2 \<in> set t" by auto
    then have "h = 2"
    proof cases
      case 1
      then show ?thesis .
    next
      case 2
      with srt ht have "h < 2" by simp
      with h2 show ?thesis by simp
    qed
    with ht r show "hd (ps_result s) = 2" by simp
  qed
qed

lemma primes_of_run:
  "primes_run kmax = Some (Inr s') \<Longrightarrow> primes kmax = Some (Inr (ps_result s'))"
  by (simp add: primes_def)

lemma primes_5: "primes 5 = Some (Inr [2, 3, 5, 7, 11])"
  by (simp add: primes_def primes_run_def primes_loop.simps primes_inner.simps getitem_def)

text \<open>
  C1. For every \<open>kmax\<close> with \<open>0 \<le> kmax \<le> 1000\<close>, \<open>primes kmax\<close> returns, without raising,
  the first \<open>kmax\<close> primes in order: a list of length \<open>kmax\<close> that is strictly increasing,
  holds only primes, holds every prime smaller than its last element and, when not
  empty, starts with 2. For
  \<open>kmax \<le> 0\<close> the result is empty, and \<open>primes 5 = [2, 3, 5, 7, 11]\<close>.
\<close>

theorem primes_first_kmax:
  "(0 \<le> kmax \<and> kmax \<le> 1000 \<longrightarrow>
      (\<exists>ps. primes kmax = Some (Inr ps) \<and> int (length ps) = kmax \<and> sorted_wrt (<) ps \<and>
         (\<forall>x\<in>set ps. is_prime x) \<and>
         (\<forall>q. is_prime q \<and> ps \<noteq> [] \<and> q < last ps \<longrightarrow> q \<in> set ps) \<and>
         (ps \<noteq> [] \<longrightarrow> hd ps = 2))) \<and>
   (kmax \<le> 0 \<longrightarrow> primes kmax = Some (Inr [])) \<and>
   primes 5 = Some (Inr [2, 3, 5, 7, 11])"
proof (intro conjI impI)
  obtain s' where s': "primes_run kmax = Some (Inr s') \<and> primes_inv s' \<and>
     ps_k s' = (if kmax \<le> 0 then 0 else if kmax > 1000 then 1000 else kmax) \<and>
     (kmax \<le> 0 \<longrightarrow> s' = \<lparr>ps_p = [], ps_result = [], ps_k = 0, ps_n = 2\<rparr>)"
    using primes_run_total[of kmax] ..
  then have run: "primes kmax = Some (Inr (ps_result s'))" and inv: "primes_inv s'"
    by (simp_all add: primes_of_run)
  {
    assume b: "0 \<le> kmax \<and> kmax \<le> 1000"
    with s' have "ps_k s' = kmax" by (cases "kmax = 0") simp_all
    with primes_inv_result[OF inv] run
    show "\<exists>ps. primes kmax = Some (Inr ps) \<and> int (length ps) = kmax \<and> sorted_wrt (<) ps \<and>
         (\<forall>x\<in>set ps. is_prime x) \<and>
         (\<forall>q. is_prime q \<and> ps \<noteq> [] \<and> q < last ps \<longrightarrow> q \<in> set ps) \<and>
         (ps \<noteq> [] \<longrightarrow> hd ps = 2)"
      by (intro exI[of _ "ps_result s'"]) simp
  }
  {
    assume "kmax \<le> 0"
    with s' run show "primes kmax = Some (Inr [])" by simp
  }
  show "primes 5 = Some (Inr [2, 3, 5, 7, 11])" by (rule primes_5)
qed

theorem primes_first_kmax_witness:
  "(\<exists>ps. primes 5 = Some (Inr ps) \<and> int (length ps) = 5 \<and> sorted_wrt (<) ps \<and>
      (\<forall>x\<in>set ps. is_prime x) \<and>
      (\<forall>q. is_prime q \<and> ps \<noteq> [] \<and> q < last ps \<longrightarrow> q \<in> set ps) \<and>
      hd ps = 2) \<and>
   primes 0 = Some (Inr []) \<and> primes (- 3) = Some (Inr [])"
  using primes_first_kmax[of 5] primes_first_kmax[of 0] primes_first_kmax[of "- 3"]
  by simp

text \<open>
  C7. An oversized \<open>kmax\<close> is capped at 1000 instead of raising: for \<open>kmax > 1000\<close> the
  output is the output for \<open>kmax = 1000\<close>, \<open>primes 2000\<close> has exactly 1000 elements, and
  for every integer \<open>kmax\<close> the call returns a list (it neither raises nor runs forever).
\<close>

theorem primes_capped:
  "(kmax > 1000 \<longrightarrow> primes kmax = primes 1000) \<and>
   (\<exists>ps. primes 2000 = Some (Inr ps) \<and> length ps = 1000) \<and>
   (\<exists>ps. primes kmax = Some (Inr ps))"
proof (intro conjI impI)
  show "primes kmax = primes 1000" if "kmax > 1000"
    using that by (simp add: primes_def primes_run_def)
  show "\<exists>ps. primes 2000 = Some (Inr ps) \<and> length ps = 1000"
  proof -
    obtain s' where s': "primes_run 2000 = Some (Inr s') \<and> primes_inv s' \<and>
       ps_k s' = (if (2000::int) \<le> 0 then 0 else if (2000::int) > 1000 then 1000 else 2000) \<and>
       ((2000::int) \<le> 0 \<longrightarrow> s' = \<lparr>ps_p = [], ps_result = [], ps_k = 0, ps_n = 2\<rparr>)"
      using primes_run_total[of 2000] ..
    then have "int (length (ps_result s')) = 1000"
      using primes_inv_result(1)[of s'] by simp
    then have "length (ps_result s') = 1000" by linarith
    with s' show ?thesis by (intro exI[of _ "ps_result s'"]) (simp add: primes_of_run)
  qed
  show "\<exists>ps. primes kmax = Some (Inr ps)"
  proof -
    obtain s' where s': "primes_run kmax = Some (Inr s') \<and> primes_inv s' \<and>
       ps_k s' = (if kmax \<le> 0 then 0 else if kmax > 1000 then 1000 else kmax) \<and>
       (kmax \<le> 0 \<longrightarrow> s' = \<lparr>ps_p = [], ps_result = [], ps_k = 0, ps_n = 2\<rparr>)"
      using primes_run_total[of kmax] ..
    then show ?thesis by (intro exI[of _ "ps_result s'"]) (simp add: primes_of_run)
  qed
qed

theorem primes_capped_witness:
  "primes 2000 = primes 1000 \<and> (\<exists>ps. primes 2000 = Some (Inr ps) \<and> length ps = 1000)"
proof -
  have "(2000::int) > 1000" by simp
  with primes_capped[of 2000] show ?thesis by blast
qed

text \<open>
  C10. \<open>primes kmax\<close> terminates for every integer \<open>kmax\<close>: the outer loop returns a final
  state, reached after the finitely many candidates \<open>2, ..., n - 1\<close>, in which \<open>k\<close> is
  \<open>min kmax 1000\<close>, or \<open>0\<close> when \<open>kmax \<le> 0\<close>, where the loop exits at once with \<open>n = 2\<close>.
\<close>

theorem primes_terminates:
  "\<exists>s'. primes_run kmax = Some (Inr s') \<and> primes kmax = Some (Inr (ps_result s')) \<and>
     ps_k s' = (if kmax \<le> 0 then 0 else min kmax 1000) \<and> 2 \<le> ps_n s' \<and>
     (kmax \<le> 0 \<longrightarrow> ps_n s' = 2)"
proof -
  obtain s' where s': "primes_run kmax = Some (Inr s') \<and> primes_inv s' \<and>
     ps_k s' = (if kmax \<le> 0 then 0 else if kmax > 1000 then 1000 else kmax) \<and>
     (kmax \<le> 0 \<longrightarrow> s' = \<lparr>ps_p = [], ps_result = [], ps_k = 0, ps_n = 2\<rparr>)"
    using primes_run_total[of kmax] ..
  then have "2 \<le> ps_n s'" by (simp add: primes_inv_def)
  moreover have "ps_k s' = (if kmax \<le> 0 then 0 else min kmax 1000)" using s' by simp
  moreover have "kmax \<le> 0 \<longrightarrow> ps_n s' = 2" using s' by auto
  ultimately show ?thesis using s' by (intro exI[of _ s']) (simp add: primes_of_run)
qed

theorem primes_terminates_witness:
  "(\<exists>s'. primes_run 7 = Some (Inr s') \<and> primes 7 = Some (Inr (ps_result s')) \<and>
      ps_k s' = 7 \<and> 2 \<le> ps_n s') \<and>
   (\<exists>s'. primes_run (- 1) = Some (Inr s') \<and> ps_k s' = 0 \<and> ps_n s' = 2)"
proof -
  have "\<exists>s'. primes_run 7 = Some (Inr s') \<and> primes 7 = Some (Inr (ps_result s')) \<and>
      ps_k s' = 7 \<and> 2 \<le> ps_n s'"
    using primes_terminates[of 7] by auto
  moreover have "\<exists>s'. primes_run (- 1) = Some (Inr s') \<and> ps_k s' = 0 \<and> ps_n s' = 2"
    using primes_terminates[of "- 1"] by auto
  ultimately show ?thesis by (rule conjI)
qed

section \<open>The Mandelbrot escape-time loops\<close>

subsection \<open>One cell\<close>

text \<open>
  The loops of both functions are the escape-time loop with their own test. From
  \<open>z = 0\<close> and a budget \<open>K > 0\<close>, the loop over \<open>n\<close> stores at \<open>(i, j)\<close> at least once
  and leaves there the last index at which the orbit passes the test.
\<close>

lemma python_iter_escape: "python_iter m i j c z ns = escape_iter python_test m i j c z ns"
  by (induction ns arbitrary: m z) (simp_all add: python_test_def split: sum.splits)

lemma cython_iter_escape: "cython_iter m i j c z ns = escape_iter cython_test m i j c z ns"
  by (induction ns arbitrary: m z) (simp_all add: cython_test_def split: sum.splits)

lemma python_test_zero: "python_test 0"
  by (simp add: python_test_def np_abs_def)

lemma cython_test_zero: "cython_test 0"
  by (simp add: cython_test_def fadd_def fmul_def)

lemma put_put:
  assumes "i < length (cells m)"
  shows "put (put m i j v 1) i j w k = put m i j w (Suc k)"
  using assms by (simp add: put_def)

lemma setitem2_put:
  assumes "i < length (cells m)" "j < length (cells m ! i)"
  shows "setitem2 m i j v = Inr (put m i j v 1)"
  using assms by (simp add: setitem2_def put_def)

lemma put_in_range:
  assumes "i < length (cells m)" "j < length (cells m ! i)"
  shows "i < length (cells (put m i j v k))" "j < length (cells (put m i j v k) ! i)"
  using assms by (simp_all add: put_def)

lemma escape_iter_from:
  assumes "i < length (cells m)" "j < length (cells m ! i)" "n < K"
    "\<forall>t\<in>{0..n}. test (orbit c t)"
  shows "\<exists>v k. escape_iter test m i j c (orbit c n) [n..<K] = Inr (put m i j (int v) (Suc k)) \<and>
           last_inside test c K v"
  using assms
proof (induction "K - n" arbitrary: n m)
  case 0
  then show ?case by simp
next
  case (Suc d)
  let ?m1 = "put m i j (int n) 1"
  have inside: "test (orbit c n)" using Suc.prems(4) by simp
  have unfold: "escape_iter test m i j c (orbit c n) [n..<K] =
      escape_iter test ?m1 i j c (orbit c (Suc n)) [Suc n..<K]"
    using upt_conv_Cons[OF Suc.prems(3)] inside setitem2_put[OF Suc.prems(1,2), of "int n"]
    by simp
  have stop: "\<exists>v k. escape_iter test m i j c (orbit c n) [n..<K] = Inr (put m i j (int v) (Suc k)) \<and>
           last_inside test c K v"
    if "escape_iter test ?m1 i j c (orbit c (Suc n)) [Suc n..<K] = Inr ?m1"
       "Suc n < K \<longrightarrow> \<not> test (orbit c (Suc n))"
  proof -
    have "last_inside test c K n" using that(2) Suc.prems(3,4) by (simp add: last_inside_def)
    with unfold that(1) show ?thesis by (intro exI[of _ n] exI[of _ 0]) simp
  qed
  show ?case
  proof (cases "Suc n < K")
    case False
    then have "[Suc n..<K] = []" by simp
    then show ?thesis using False by (intro stop) simp_all
  next
    case lt: True
    show ?thesis
    proof (cases "test (orbit c (Suc n))")
      case False
      then show ?thesis using upt_conv_Cons[OF lt] by (intro stop) simp_all
    next
      case True
      have d: "d = K - Suc n" using Suc.hyps(2) by simp
      have all: "\<forall>t\<in>{0..Suc n}. test (orbit c t)"
      proof
        fix t assume "t \<in> {0..Suc n}"
        then consider "t \<in> {0..n}" | "t = Suc n" by (auto simp: le_Suc_eq)
        then show "test (orbit c t)"
        proof cases
          case 1 then show ?thesis using Suc.prems(4) by blast
        next
          case 2 then show ?thesis using True by simp
        qed
      qed
      from Suc.hyps(1)[OF d put_in_range[OF Suc.prems(1,2)] lt all]
      obtain v k where vk: "escape_iter test ?m1 i j c (orbit c (Suc n)) [Suc n..<K] =
          Inr (put ?m1 i j (int v) (Suc k)) \<and> last_inside test c K v" by blast
      then show ?thesis using unfold put_put[OF Suc.prems(1)]
        by (intro exI[of _ v] exI[of _ "Suc k"]) simp
    qed
  qed
qed

lemma escape_iter_cell:
  assumes "i < length (cells m)" "j < length (cells m ! i)" "0 < K" "test 0"
  shows "\<exists>v k. escape_iter test m i j c 0 [0..<K] = Inr (put m i j (int v) (Suc k)) \<and>
           last_inside test c K v"
  using escape_iter_from[where test = test and c = c, OF assms(1,2,3)] assms(4) by simp

subsection \<open>The grid\<close>

lemma python_cols_escape: "python_cols m S K i js = escape_cols python_test m S K i js"
  by (induction js arbitrary: m) (simp_all add: python_iter_escape split: sum.splits)

lemma python_rows_escape: "python_rows m S K is = escape_rows python_test m S K is"
  by (induction "is" arbitrary: m) (simp_all add: python_cols_escape split: sum.splits)

lemma cython_cols_escape: "cython_cols m S K i js = escape_cols cython_test m S K i js"
  by (induction js arbitrary: m) (simp_all add: cython_iter_escape split: sum.splits)

lemma cython_rows_escape: "cython_rows m S K is = escape_rows cython_test m S K is"
  by (induction "is" arbitrary: m) (simp_all add: cython_cols_escape split: sum.splits)

lemma filled_refl: "filled test {} S K m m"
  by (simp add: filled_def)

lemma filled_put:
  assumes "i < length (cells m)" "j < length (cells m ! i)" "last_inside test (cell_c S i j) K v"
  shows "filled test {(i, j)} S K m (put m i j (int v) (Suc k))"
  unfolding filled_def
proof (intro conjI allI impI)
  show "length (cells (put m i j (int v) (Suc k))) = length (cells m)"
    by (simp add: put_def)
  show "length (cells (put m i j (int v) (Suc k)) ! r) = length (cells m ! r)" for r
    using assms(1) by (cases "r = i") (simp_all add: put_def)
  show "\<exists>w. cells (put m i j (int v) (Suc k)) ! r ! q = int w \<and> last_inside test (cell_c S r q) K w"
    if "(r, q) \<in> {(i, j)}" for r q
    using that assms by (intro exI[of _ v]) (simp add: put_def)
  show "cells (put m i j (int v) (Suc k)) ! r ! q = cells m ! r ! q" if "(r, q) \<notin> {(i, j)}" for r q
  proof (cases "r = i")
    case True
    with that have "q \<noteq> j" by simp
    with True assms(1) show ?thesis by (simp add: put_def)
  next
    case False
    then show ?thesis by (simp add: put_def)
  qed
  show "set (writes (put m i j (int v) (Suc k))) = set (writes m) \<union> {(i, j)}"
    by (simp add: put_def set_replicate_conv_if)
qed

lemma filled_trans:
  assumes "filled test A S K m m1" "filled test B S K m1 m2" "A \<inter> B = {}"
  shows "filled test (A \<union> B) S K m m2"
  unfolding filled_def
proof (intro conjI allI impI)
  show "length (cells m2) = length (cells m)"
    using assms(1,2) by (simp add: filled_def)
  show "length (cells m2 ! r) = length (cells m ! r)" for r
    using assms(1,2) by (simp add: filled_def)
  show "\<exists>v. cells m2 ! r ! q = int v \<and> last_inside test (cell_c S r q) K v"
    if "(r, q) \<in> A \<union> B" for r q
  proof (cases "(r, q) \<in> B")
    case True
    with assms(2) show ?thesis unfolding filled_def by blast
  next
    case False
    with that have "(r, q) \<in> A" by simp
    with assms(1) obtain v where "cells m1 ! r ! q = int v \<and> last_inside test (cell_c S r q) K v"
      unfolding filled_def by blast
    moreover from False assms(2) have "cells m2 ! r ! q = cells m1 ! r ! q"
      unfolding filled_def by blast
    ultimately show ?thesis by (intro exI[of _ v]) simp
  qed
  show "cells m2 ! r ! q = cells m ! r ! q" if "(r, q) \<notin> A \<union> B" for r q
  proof -
    from that have "(r, q) \<notin> A" "(r, q) \<notin> B" by simp_all
    with assms(1,2) have "cells m2 ! r ! q = cells m1 ! r ! q" "cells m1 ! r ! q = cells m ! r ! q"
      unfolding filled_def by blast+
    then show ?thesis by simp
  qed
  have "set (writes m1) = set (writes m) \<union> A" "set (writes m2) = set (writes m1) \<union> B"
    using assms(1,2) by (simp_all add: filled_def)
  then show "set (writes m2) = set (writes m) \<union> (A \<union> B)" by (simp add: Un_assoc)
qed

lemma filled_shape:
  assumes "filled test B S K m m'"
  shows "length (cells m') = length (cells m)" "length (cells m' ! r) = length (cells m ! r)"
  using assms by (simp_all add: filled_def)

lemma escape_cols_filled:
  assumes "i < length (cells m)" "\<forall>j\<in>set js. j < length (cells m ! i)" "0 < K" "distinct js"
    "test 0"
  shows "\<exists>m'. escape_cols test m S (int K) i js = Inr m' \<and> filled test ({i} \<times> set js) S K m m'"
  using assms(1,2,4)
proof (induction js arbitrary: m)
  case Nil
  then show ?case by (simp add: filled_refl)
next
  case (Cons j js)
  from Cons.prems have j: "j < length (cells m ! i)" by simp
  from escape_iter_cell[where test = test and c = "cell_c S i j", OF Cons.prems(1) j assms(3,5)]
  obtain v k where vk: "escape_iter test m i j (cell_c S i j) 0 [0..<K] = Inr (put m i j (int v) (Suc k))"
    "last_inside test (cell_c S i j) K v" by blast
  let ?m1 = "put m i j (int v) (Suc k)"
  have f1: "filled test {(i, j)} S K m ?m1" by (rule filled_put[OF Cons.prems(1) j vk(2)])
  have r1: "i < length (cells ?m1)" using Cons.prems(1) filled_shape(1)[OF f1] by simp
  have r2: "\<forall>q\<in>set js. q < length (cells ?m1 ! i)"
    using Cons.prems(2) filled_shape(2)[OF f1, of i] by simp
  have d: "distinct js" using Cons.prems(3) by simp
  from Cons.IH[OF r1 r2 d]
  obtain m' where m': "escape_cols test ?m1 S (int K) i js = Inr m'"
    "filled test ({i} \<times> set js) S K ?m1 m'"
    by blast
  have "{(i, j)} \<inter> ({i} \<times> set js) = {}" using Cons.prems(3) by auto
  from filled_trans[OF f1 m'(2) this]
  have "filled test ({i} \<times> set (j # js)) S K m m'" by (simp add: insert_Times_insert)
  moreover have "escape_cols test m S (int K) i (j # js) = Inr m'"
    using vk(1) m'(1) by (simp add: py_range_def)
  ultimately show ?case by blast
qed

lemma escape_rows_filled:
  assumes "\<forall>i\<in>set is. i < length (cells m) \<and> nat S \<le> length (cells m ! i)" "0 < K" "distinct is"
    "test 0"
  shows "\<exists>m'. escape_rows test m S (int K) is = Inr m' \<and>
           filled test (set is \<times> {0..<nat S}) S K m m'"
  using assms(1,3)
proof (induction "is" arbitrary: m)
  case Nil
  then show ?case by (simp add: filled_refl)
next
  case (Cons i "is")
  from Cons.prems(1) have i: "i < length (cells m)" and w: "nat S \<le> length (cells m ! i)"
    by simp_all
  have cols: "\<forall>j\<in>set (py_range S). j < length (cells m ! i)"
    using w by (simp add: py_range_def)
  have dj: "distinct (py_range S)" by (simp add: py_range_def)
  from escape_cols_filled[where test = test and S = S, OF i cols assms(2) dj assms(4)]
  obtain m1 where m1: "escape_cols test m S (int K) i (py_range S) = Inr m1"
    "filled test ({i} \<times> set (py_range S)) S K m m1" by blast
  have r: "\<forall>i\<in>set is. i < length (cells m1) \<and> nat S \<le> length (cells m1 ! i)"
    using Cons.prems(1) filled_shape[OF m1(2)] by simp
  have d: "distinct is" using Cons.prems(2) by simp
  from Cons.IH[OF r d]
  obtain m' where m': "escape_rows test m1 S (int K) is = Inr m'"
    "filled test (set is \<times> {0..<nat S}) S K m1 m'" by blast
  have "({i} \<times> set (py_range S)) \<inter> (set is \<times> {0..<nat S}) = {}"
    using Cons.prems(2) by auto
  from filled_trans[OF m1(2) m'(2) this]
  have "filled test (set (i # is) \<times> {0..<nat S}) S K m m'"
    by (simp add: py_range_def Sigma_Un_distrib1[symmetric] del: Sigma_Un_distrib1)
  moreover have "escape_rows test m S (int K) (i # is) = Inr m'"
    using m1(1) m'(1) by simp
  ultimately show ?case by blast
qed

lemma escape_grid_filled:
  assumes "1 \<le> S" "1 \<le> K" "fits m (nat S)" "test 0"
  shows "\<exists>m'. escape_rows test m S K (py_range S) = Inr m' \<and>
           filled test ({0..<nat S} \<times> {0..<nat S}) S (nat K) m m'"
proof -
  have r: "\<forall>i\<in>set (py_range S). i < length (cells m) \<and> nat S \<le> length (cells m ! i)"
    using assms(3) by (simp add: py_range_def fits_def)
  have k: "0 < nat K" using assms(2) by simp
  have d: "distinct (py_range S)" by (simp add: py_range_def)
  from escape_rows_filled[where test = test, OF r k d assms(4)] assms(2)
  show ?thesis by (simp add: py_range_def)
qed

lemma mandelbrot_python_filled:
  assumes "1 \<le> S" "1 \<le> K" "fits m (nat S)"
  shows "\<exists>m'. mandelbrot_python m S K = Inr m' \<and>
           filled python_test ({0..<nat S} \<times> {0..<nat S}) S (nat K) m m'"
  using escape_grid_filled[where test = python_test, OF assms python_test_zero]
  by (simp add: mandelbrot_python_def python_rows_escape)

lemma mandelbrot_cython_filled:
  assumes "1 \<le> sint S" "1 \<le> sint K" "fits m (nat (sint S))"
  shows "\<exists>m'. mandelbrot_cython m S K = Inr m' \<and>
           filled cython_test ({0..<nat (sint S)} \<times> {0..<nat (sint S)}) (sint S) (nat (sint K)) m m'"
  using escape_grid_filled[where test = cython_test, OF assms cython_test_zero]
  by (simp add: mandelbrot_cython_def cython_rows_escape)

lemma filled_block_written:
  assumes "filled test ({0..<s} \<times> {0..<s}) S (nat K) m m'"
  shows "block_written m s K m'"
  unfolding block_written_def
proof (intro conjI allI impI)
  show "length (cells m') = length (cells m)" using assms by (simp add: filled_def)
  show "length (cells m' ! r) = length (cells m ! r)" for r using assms by (simp add: filled_def)
  show "set (writes m') = set (writes m) \<union> {0..<s} \<times> {0..<s}" using assms by (simp add: filled_def)
  show "cells m' ! r ! q = cells m ! r ! q" if "\<not> (r < s \<and> q < s)" for r q
  proof -
    from that have "(r, q) \<notin> {0..<s} \<times> {0..<s}" by simp
    with assms show ?thesis unfolding filled_def by blast
  qed
  have v: "\<exists>v. cells m' ! r ! q = int v \<and> last_inside test (cell_c S r q) (nat K) v"
    if "r < s \<and> q < s" for r q
  proof -
    from that have "(r, q) \<in> {0..<s} \<times> {0..<s}" by simp
    with assms show ?thesis unfolding filled_def by blast
  qed
  show "0 \<le> cells m' ! r ! q" if "r < s \<and> q < s" for r q
    using v[OF that] by auto
  show "cells m' ! r ! q < K" if "r < s \<and> q < s" for r q
    using v[OF that] by (auto simp: last_inside_def)
qed

text \<open>
  C9. Both functions act only by mutating \<open>m\<close>: for \<open>S \<ge> 1\<close>, \<open>K \<ge> 1\<close> and a grid of side
  at least \<open>S\<close>, the run returns the grid with its shape kept; the positions written are
  exactly the \<open>(i, j)\<close> with \<open>i < S\<close> and \<open>j < S\<close>, each at least once; every entry outside
  that block is unchanged.
\<close>

theorem mandelbrot_frame:
  "(1 \<le> S \<and> 1 \<le> K \<and> fits m (nat S) \<longrightarrow>
      (\<exists>m'. mandelbrot_python m S K = Inr m' \<and> block_written m (nat S) K m')) \<and>
   (1 \<le> sint S' \<and> 1 \<le> sint K' \<and> fits m (nat (sint S')) \<longrightarrow>
      (\<exists>m'. mandelbrot_cython m S' K' = Inr m' \<and> block_written m (nat (sint S')) (sint K') m'))"
proof (intro conjI impI)
  assume "1 \<le> S \<and> 1 \<le> K \<and> fits m (nat S)"
  with mandelbrot_python_filled[of S K m]
  obtain m' where "mandelbrot_python m S K = Inr m'"
    "filled python_test ({0..<nat S} \<times> {0..<nat S}) S (nat K) m m'" by blast
  with filled_block_written[of python_test "nat S" S K m m']
  show "\<exists>m'. mandelbrot_python m S K = Inr m' \<and> block_written m (nat S) K m'" by blast
next
  assume "1 \<le> sint S' \<and> 1 \<le> sint K' \<and> fits m (nat (sint S'))"
  with mandelbrot_cython_filled[of S' K' m]
  obtain m' where "mandelbrot_cython m S' K' = Inr m'"
    "filled cython_test ({0..<nat (sint S')} \<times> {0..<nat (sint S')}) (sint S') (nat (sint K')) m m'"
    by blast
  with filled_block_written[of cython_test "nat (sint S')" "sint S'" "sint K'" m m']
  show "\<exists>m'. mandelbrot_cython m S' K' = Inr m' \<and> block_written m (nat (sint S')) (sint K') m'"
    by blast
qed

theorem mandelbrot_frame_witness:
  "(\<exists>m'. mandelbrot_python \<lparr>cells = [[7, 7, 7], [7, 7, 7]], writes = []\<rparr> 2 100 = Inr m' \<and>
      block_written \<lparr>cells = [[7, 7, 7], [7, 7, 7]], writes = []\<rparr> 2 100 m') \<and>
   (\<exists>m'. mandelbrot_cython \<lparr>cells = [[7, 7, 7], [7, 7, 7]], writes = []\<rparr> 2 100 = Inr m' \<and>
      block_written \<lparr>cells = [[7, 7, 7], [7, 7, 7]], writes = []\<rparr> 2 100 m')"
proof -
  have f: "fits \<lparr>cells = [[7, 7, 7], [7, 7, 7]], writes = []\<rparr> 2"
    by (auto simp: fits_def less_Suc_eq numeral_2_eq_2)
  have s: "sint (2 :: 32 word) = 2" "sint (100 :: 32 word) = 100" by simp_all
  from mandelbrot_frame[of 2 100 "\<lparr>cells = [[7, 7, 7], [7, 7, 7]], writes = []\<rparr>" 2 100] f s
  show ?thesis by simp
qed

subsection \<open>The parameters of the grid\<close>

text \<open>
  The parameter of every cell of the grid lies in the box \<open>[-2, 4] \<times> [-4.5, 1.5]\<close>, so
  \<open>z\<^sub>1 = c\<close> passes both tests.
\<close>

lemma cmul_zero: "cmul 0 0 = 0"
  by (simp add: cmul_def fmul_def fsub_def fadd_def complex_eq_iff)

lemma orbit_1: "orbit c (Suc 0) = Complex (fl (Re c)) (fl (Im c))"
  by (simp add: cmul_zero cadd_def fadd_def)

lemma cell_c_eq:
  "cell_c S i j =
     Complex (fl (- 2 + fl (fl (3 / fl (of_int S)) * fl (real j))))
             (fl (3 / 2 - fl (fl (3 / fl (of_int S)) * fl (real i))))"
  by (simp add: cell_c_def cadd_def cmul_def fadd_def fsub_def fmul_def fdiv_def float_of_int_def)

lemma scaled_index:
  assumes "1 \<le> S" "j \<le> nat S"
  shows "0 \<le> fl (fl (3 / fl (of_int S)) * fl (real j))"
    "fl (fl (3 / fl (of_int S)) * fl (real j)) \<le> 6"
proof -
  let ?F = "fl (real_of_int S)" and ?G = "fl (real j)"
  have "fl (of_int 1) \<le> ?F" using assms(1) by (intro fl_mono) simp
  then have F: "1 \<le> ?F" using fl_int[of 1] by simp
  have G0: "0 \<le> ?G" by (intro fl_nonneg) simp
  have G: "?G \<le> ?F" using assms by (intro fl_mono) linarith
  have a0: "0 \<le> fl (3 / ?F)" using F by (intro fl_nonneg) simp
  have "fl (3 / ?F) \<le> 2 * (3 / ?F)" using F by (intro fl_le_double) simp
  then have a: "fl (3 / ?F) \<le> 6 / ?F" by simp
  have "fl (3 / ?F) * ?G \<le> 6 / ?F * ?F"
    using a G a0 G0 F by (intro mult_mono) simp_all
  then have le: "fl (3 / ?F) * ?G \<le> 6" using F by simp
  have ge: "0 \<le> fl (3 / ?F) * ?G" using a0 G0 by simp
  show "0 \<le> fl (fl (3 / ?F) * ?G)" using ge by (rule fl_nonneg)
  have "fl (fl (3 / ?F) * ?G) \<le> fl (of_int 6)" using le by (intro fl_mono) simp
  then show "fl (fl (3 / ?F) * ?G) \<le> 6" using fl_int[of 6] by simp
qed

lemma cell_c_box:
  assumes "1 \<le> S" "i < nat S" "j < nat S"
  shows "- 2 \<le> Re (cell_c S i j)" "Re (cell_c S i j) \<le> 4"
    "- (9 / 2) \<le> Im (cell_c S i j)" "Im (cell_c S i j) \<le> 3 / 2"
proof -
  have j: "j \<le> nat S" and i: "i \<le> nat S" using assms by simp_all
  note bj = scaled_index[OF assms(1) j] and bi = scaled_index[OF assms(1) i]
  let ?b = "fl (fl (3 / fl (of_int S)) * fl (real j))"
  let ?d = "fl (fl (3 / fl (of_int S)) * fl (real i))"
  have "fl (of_int (- 2)) \<le> fl (- 2 + ?b)" using bj(1) by (intro fl_mono) simp
  then show "- 2 \<le> Re (cell_c S i j)" using fl_int[of "- 2"] by (simp add: cell_c_eq)
  have "fl (- 2 + ?b) \<le> fl (of_int 4)" using bj(2) by (intro fl_mono) simp
  then show "Re (cell_c S i j) \<le> 4" using fl_int[of 4] by (simp add: cell_c_eq)
  have "fl (of_int (- 9) / 2 ^ 1) \<le> fl (3 / 2 - ?d)" using bi(2) by (intro fl_mono) simp
  then show "- (9 / 2) \<le> Im (cell_c S i j)" using fl_dyadic[of "- 9" 1] by (simp add: cell_c_eq)
  have "fl (3 / 2 - ?d) \<le> fl (of_int 3 / 2 ^ 1)" using bi(1) by (intro fl_mono) simp
  then show "Im (cell_c S i j) \<le> 3 / 2" using fl_dyadic[of 3 1] by (simp add: cell_c_eq)
qed

lemma python_test_leI:
  assumes "(Re z)\<^sup>2 + (Im z)\<^sup>2 \<le> 100"
  shows "python_test z"
proof -
  have "sqrt ((Re z)\<^sup>2 + (Im z)\<^sup>2) \<le> sqrt 100" using assms by (simp only: real_sqrt_le_iff)
  moreover have "sqrt 100 = (10::real)" using real_sqrt_abs[of 10] by simp
  ultimately have "cmod z \<le> of_int 10" by (simp add: cmod_def)
  then have "fl (cmod z) \<le> fl (of_int 10)" by (rule fl_mono)
  then show ?thesis using fl_int[of 10] by (simp add: python_test_def np_abs_def)
qed

lemma cython_test_leI:
  assumes "fl (Re z * Re z) + fl (Im z * Im z) \<le> 100"
  shows "cython_test z"
proof -
  from assms have "fl (fl (Re z * Re z) + fl (Im z * Im z)) \<le> fl (of_int 100)"
    by (intro fl_mono) simp
  then show ?thesis using fl_int[of 100] by (simp add: cython_test_def fadd_def fmul_def)
qed

lemma cython_test_gtI:
  assumes "101 \<le> fl (Re z * Re z) + fl (Im z * Im z)"
  shows "\<not> cython_test z"
proof -
  from assms have "fl (of_int 101) \<le> fl (fl (Re z * Re z) + fl (Im z * Im z))"
    by (intro fl_mono) simp
  then show ?thesis using fl_int[of 101] by (simp add: cython_test_def fadd_def fmul_def)
qed

lemma cell_tests:
  assumes "1 \<le> S" "i < nat S" "j < nat S"
  shows "python_test (orbit (cell_c S i j) (Suc 0))" "cython_test (orbit (cell_c S i j) (Suc 0))"
proof -
  let ?c = "cell_c S i j"
  note b = cell_c_box[OF assms]
  have z: "orbit ?c (Suc 0) = ?c" unfolding orbit_1 by (simp add: cell_c_eq)
  have re: "(Re ?c)\<^sup>2 \<le> 16"
  proof -
    have "\<bar>Re ?c\<bar> \<le> 4" using b(1,2) by linarith
    then have "\<bar>Re ?c\<bar> * \<bar>Re ?c\<bar> \<le> 4 * 4" by (intro mult_mono) simp_all
    then show ?thesis by (simp add: power2_eq_square)
  qed
  have im: "(Im ?c)\<^sup>2 \<le> 81 / 4"
  proof -
    have "\<bar>Im ?c\<bar> \<le> 9 / 2" using b(3,4) by linarith
    then have "\<bar>Im ?c\<bar> * \<bar>Im ?c\<bar> \<le> 9 / 2 * (9 / 2)" by (intro mult_mono) simp_all
    then show ?thesis by (simp add: power2_eq_square)
  qed
  show "python_test (orbit ?c (Suc 0))" unfolding z using re im by (intro python_test_leI) linarith
  have "fl (Re ?c * Re ?c) \<le> fl (of_int 16)" using re by (intro fl_mono) (simp add: power2_eq_square)
  then have r: "fl (Re ?c * Re ?c) \<le> 16" using fl_int[of 16] by simp
  have "fl (Im ?c * Im ?c) \<le> fl (of_int 81 / 2 ^ 2)" using im by (intro fl_mono) (simp add: power2_eq_square)
  then have i: "fl (Im ?c * Im ?c) \<le> 81 / 4" using fl_dyadic[of 81 2] by simp
  show "cython_test (orbit ?c (Suc 0))" unfolding z using r i by (intro cython_test_leI) linarith
qed

lemma last_inside_zero_iff:
  assumes "last_inside test c K n" "test (orbit c (Suc 0))"
  shows "n = 0 \<longleftrightarrow> K = 1"
proof
  assume "n = 0"
  with assms show "K = 1" by (auto simp: last_inside_def)
next
  assume "K = 1"
  with assms(1) show "n = 0" by (simp add: last_inside_def)
qed

lemma last_inside_unique:
  assumes "last_inside test c K v" "last_inside test c K n"
  shows "v = n"
proof (rule ccontr)
  assume ne: "v \<noteq> n"
  have *: "False" if a: "last_inside test c K x" and b: "last_inside test c K y" and lt: "x < y" for x y
  proof -
    have "Suc x \<in> {0..y}" using lt by simp
    moreover have "\<forall>t\<in>{0..y}. test (orbit c t)" using b by (simp add: last_inside_def)
    ultimately have t: "test (orbit c (Suc x))" by blast
    have "y < K" using b by (simp add: last_inside_def)
    then have "Suc x < K" using lt by simp
    then have "\<not> test (orbit c (Suc x))" using a by (simp add: last_inside_def)
    with t show False by simp
  qed
  from ne have "v < n \<or> n < v" by linarith
  then show False using *[OF assms(1) assms(2)] *[OF assms(2) assms(1)] by blast
qed

lemma python_cell:
  assumes "1 \<le> S" "1 \<le> K" "fits m (nat S)" "i < nat S" "j < nat S"
  shows "\<exists>m' v. mandelbrot_python m S K = Inr m' \<and> cells m' ! i ! j = int v \<and>
           last_inside python_test (cell_c S i j) (nat K) v"
proof -
  obtain m' where "mandelbrot_python m S K = Inr m' \<and>
      filled python_test ({0..<nat S} \<times> {0..<nat S}) S (nat K) m m'"
    using mandelbrot_python_filled[OF assms(1,2,3)] ..
  note m = this[THEN conjunct1] and f = this[THEN conjunct2]
  have "(i, j) \<in> {0..<nat S} \<times> {0..<nat S}" using assms(4,5) by simp
  with f have "\<exists>v. cells m' ! i ! j = int v \<and> last_inside python_test (cell_c S i j) (nat K) v"
    unfolding filled_def by blast
  with m show ?thesis by blast
qed

lemma cython_cell:
  assumes "1 \<le> sint S" "1 \<le> sint K" "fits m (nat (sint S))" "i < nat (sint S)" "j < nat (sint S)"
  shows "\<exists>m' v. mandelbrot_cython m S K = Inr m' \<and> cells m' ! i ! j = int v \<and>
           last_inside cython_test (cell_c (sint S) i j) (nat (sint K)) v"
proof -
  obtain m' where "mandelbrot_cython m S K = Inr m' \<and>
      filled cython_test ({0..<nat (sint S)} \<times> {0..<nat (sint S)}) (sint S) (nat (sint K)) m m'"
    using mandelbrot_cython_filled[OF assms(1,2,3)] ..
  note m = this[THEN conjunct1] and f = this[THEN conjunct2]
  have "(i, j) \<in> {0..<nat (sint S)} \<times> {0..<nat (sint S)}" using assms(4,5) by simp
  with f have "\<exists>v. cells m' ! i ! j = int v \<and>
      last_inside cython_test (cell_c (sint S) i j) (nat (sint K)) v"
    unfolding filled_def by blast
  with m show ?thesis by blast
qed

lemma python_cell_value:
  assumes "1 \<le> S" "1 \<le> K" "fits m (nat S)" "i < nat S" "j < nat S"
    "last_inside python_test (cell_c S i j) (nat K) n"
  shows "result_cell (mandelbrot_python m S K) i j = Inr (int n)"
proof -
  obtain m' v where "mandelbrot_python m S K = Inr m' \<and> cells m' ! i ! j = int v \<and>
      last_inside python_test (cell_c S i j) (nat K) v"
    using python_cell[OF assms(1-5)] by blast
  note m = this[THEN conjunct1] and c = this[THEN conjunct2, THEN conjunct1]
    and l = this[THEN conjunct2, THEN conjunct2]
  have "v = n" using l assms(6) by (rule last_inside_unique)
  with m c show ?thesis by (simp add: result_cell_def)
qed

lemma cython_cell_value:
  assumes "1 \<le> sint S" "1 \<le> sint K" "fits m (nat (sint S))" "i < nat (sint S)" "j < nat (sint S)"
    "last_inside cython_test (cell_c (sint S) i j) (nat (sint K)) n"
  shows "result_cell (mandelbrot_cython m S K) i j = Inr (int n)"
proof -
  obtain m' v where "mandelbrot_cython m S K = Inr m' \<and> cells m' ! i ! j = int v \<and>
      last_inside cython_test (cell_c (sint S) i j) (nat (sint K)) v"
    using cython_cell[OF assms(1-5)] by blast
  note m = this[THEN conjunct1] and c = this[THEN conjunct2, THEN conjunct1]
    and l = this[THEN conjunct2, THEN conjunct2]
  have "v = n" using l assms(6) by (rule last_inside_unique)
  with m c show ?thesis by (simp add: result_cell_def)
qed

lemma cadd_zero: "cadd 0 0 = 0"
  by (simp add: cadd_def fadd_def complex_eq_iff)

lemma orbit_zero: "orbit 0 t = 0"
  by (induction t) (simp_all add: cmul_zero cadd_zero)

lemma exact_orbit_minus_two: "exact_orbit (- 2) (Suc (Suc t)) = 2"
  by (induction t) (simp_all add: power2_eq_square)

lemma cython_test_boundI:
  assumes "Re z * Re z \<le> of_int A" "Im z * Im z \<le> of_int B" "\<bar>A\<bar> \<le> 2 ^ 53" "\<bar>B\<bar> \<le> 2 ^ 53"
    "A + B \<le> 100"
  shows "cython_test z"
proof -
  have "fl (Re z * Re z) \<le> fl (of_int A)" using assms(1) by (rule fl_mono)
  moreover have "fl (Im z * Im z) \<le> fl (of_int B)" using assms(2) by (rule fl_mono)
  moreover have "real_of_int A + of_int B \<le> 100" using assms(5) by linarith
  ultimately have "fl (Re z * Re z) + fl (Im z * Im z) \<le> 100"
    using fl_int[OF assms(3)] fl_int[OF assms(4)] by simp
  then show ?thesis by (rule cython_test_leI)
qed

lemma cython_test_boundD:
  assumes "of_int A \<le> Re z * Re z" "of_int B \<le> Im z * Im z" "\<bar>A\<bar> \<le> 2 ^ 53" "\<bar>B\<bar> \<le> 2 ^ 53"
    "101 \<le> A + B"
  shows "\<not> cython_test z"
proof -
  have "fl (of_int A) \<le> fl (Re z * Re z)" using assms(1) by (rule fl_mono)
  moreover have "fl (of_int B) \<le> fl (Im z * Im z)" using assms(2) by (rule fl_mono)
  moreover have "101 \<le> real_of_int A + of_int B" using assms(5) by linarith
  ultimately have "101 \<le> fl (Re z * Re z) + fl (Im z * Im z)"
    using fl_int[OF assms(3)] fl_int[OF assms(4)] by simp
  then show ?thesis by (rule cython_test_gtI)
qed

text \<open>
  C3, as the code has it. No cell of the grid escapes at once: for \<open>S \<ge> 1\<close>, \<open>K \<ge> 1\<close>
  and every cell \<open>(row, col)\<close> of the grid, whatever its parameter \<open>c\<close> (also with
  \<open>|c| > 2\<close>), both functions record 0 exactly when \<open>K = 1\<close>. With a budget
  \<open>K \<ge> 2\<close> the first two tests, at \<open>z\<^sub>0 = 0\<close> and at \<open>z\<^sub>1 = c\<close>, pass, and the
  recorded value is at least 1.
\<close>

theorem recorded_zero_iff:
  "(1 \<le> S \<and> 1 \<le> K \<and> fits m (nat S) \<and> row < nat S \<and> col < nat S \<longrightarrow>
      (\<exists>m'. mandelbrot_python m S K = Inr m' \<and> (cells m' ! row ! col = 0 \<longleftrightarrow> K = 1))) \<and>
   (1 \<le> sint S' \<and> 1 \<le> sint K' \<and> fits m (nat (sint S')) \<and>
      row < nat (sint S') \<and> col < nat (sint S') \<longrightarrow>
      (\<exists>m'. mandelbrot_cython m S' K' = Inr m' \<and> (cells m' ! row ! col = 0 \<longleftrightarrow> sint K' = 1)))"
proof (intro conjI impI)
  assume a: "1 \<le> S \<and> 1 \<le> K \<and> fits m (nat S) \<and> row < nat S \<and> col < nat S"
  then have S: "1 \<le> S" and K: "1 \<le> K" and f: "fits m (nat S)"
    and r: "row < nat S" and c: "col < nat S" by simp_all
  obtain m' v where "mandelbrot_python m S K = Inr m' \<and> cells m' ! row ! col = int v \<and>
      last_inside python_test (cell_c S row col) (nat K) v"
    using python_cell[OF S K f r c] by blast
  note m = this[THEN conjunct1] and e = this[THEN conjunct2, THEN conjunct1]
    and l = this[THEN conjunct2, THEN conjunct2]
  have "v = 0 \<longleftrightarrow> nat K = 1" using l cell_tests(1)[OF S r c] by (rule last_inside_zero_iff)
  then have "cells m' ! row ! col = 0 \<longleftrightarrow> K = 1" using e K by auto
  with m show "\<exists>m'. mandelbrot_python m S K = Inr m' \<and> (cells m' ! row ! col = 0 \<longleftrightarrow> K = 1)"
    by blast
next
  assume a: "1 \<le> sint S' \<and> 1 \<le> sint K' \<and> fits m (nat (sint S')) \<and>
      row < nat (sint S') \<and> col < nat (sint S')"
  then have S: "1 \<le> sint S'" and K: "1 \<le> sint K'" and f: "fits m (nat (sint S'))"
    and r: "row < nat (sint S')" and c: "col < nat (sint S')" by simp_all
  obtain m' v where "mandelbrot_cython m S' K' = Inr m' \<and> cells m' ! row ! col = int v \<and>
      last_inside cython_test (cell_c (sint S') row col) (nat (sint K')) v"
    using cython_cell[OF S K f r c] by blast
  note m = this[THEN conjunct1] and e = this[THEN conjunct2, THEN conjunct1]
    and l = this[THEN conjunct2, THEN conjunct2]
  have "v = 0 \<longleftrightarrow> nat (sint K') = 1"
    using l cell_tests(2)[OF S r c] by (rule last_inside_zero_iff)
  then have "cells m' ! row ! col = 0 \<longleftrightarrow> sint K' = 1" using e K by auto
  with m show "\<exists>m'. mandelbrot_cython m S' K' = Inr m' \<and>
      (cells m' ! row ! col = 0 \<longleftrightarrow> sint K' = 1)"
    by blast
qed

theorem recorded_zero_iff_witness:
  "(\<exists>m'. mandelbrot_python \<lparr>cells = [[5]], writes = []\<rparr> 1 1 = Inr m' \<and> cells m' ! 0 ! 0 = 0) \<and>
   (\<exists>m'. mandelbrot_cython \<lparr>cells = [[5]], writes = []\<rparr> 1 1 = Inr m' \<and> cells m' ! 0 ! 0 = 0)"
proof -
  have f: "fits \<lparr>cells = [[5]], writes = []\<rparr> 1" by (simp add: fits_def)
  have s: "sint (1 :: 32 word) = 1" by simp
  from recorded_zero_iff[of 1 1 "\<lparr>cells = [[5]], writes = []\<rparr>" 0 0 1 1] f s
  show ?thesis by simp
qed

subsection \<open>Computed orbits\<close>

text \<open>
  A step of the orbit is seven rounded operations; the parameter of a cell is eight.
  The orbits below are computed operation by operation.
\<close>

lemma cstep:
  assumes "fl (a * a) = p" "fl (b * b) = q" "fl (p - q) = r" "fl (a * b) = s" "fl (s + s) = u"
    "fl (r + cr) = zr" "fl (u + ci) = zi"
  shows "cadd (cmul (Complex a b) (Complex a b)) (Complex cr ci) = Complex zr zi"
  using assms by (simp add: cadd_def cmul_def fadd_def fsub_def fmul_def mult.commute[of b a])

lemma orbit_next:
  assumes "orbit c t = z" "cadd (cmul z z) c = z'" "t' = Suc t"
  shows "orbit c t' = z'"
  using assms by simp

lemma python_test_gtI:
  assumes "(641 / 64)\<^sup>2 \<le> (Re z)\<^sup>2 + (Im z)\<^sup>2"
  shows "\<not> python_test z"
proof -
  have "sqrt ((641 / 64)\<^sup>2) \<le> sqrt ((Re z)\<^sup>2 + (Im z)\<^sup>2)"
    using assms by (simp only: real_sqrt_le_iff)
  moreover have "sqrt ((641 / 64)\<^sup>2) = (641 / 64 :: real)" by simp
  ultimately have "of_int 641 / 2 ^ 6 \<le> cmod z" by (simp add: cmod_def)
  then have "fl (of_int 641 / 2 ^ 6) \<le> fl (cmod z)" by (rule fl_mono)
  then show ?thesis using fl_dyadic[of 641 6] by (simp add: python_test_def np_abs_def)
qed

lemma cell_cI:
  assumes "fl (real_of_int S) = F" "fl (3 / F) = a" "fl (real j) = J" "fl (a * J) = b"
    "fl (- 2 + b) = re" "fl (real i) = I" "fl (a * I) = d" "fl (3 / 2 - d) = im"
  shows "cell_c S i j = Complex re im"
  unfolding cell_c_eq using assms by (simp only:)

lemma ball_step:
  assumes "\<forall>t\<in>{0..n}. P t" "P n'" "n' = Suc n"
  shows "\<forall>t\<in>{0..n'}. P t"
  using assms by (auto simp: le_Suc_eq)

text \<open>
  The grid of side 1. Its only cell has \<open>c = -2 + 1.5 i\<close>, and the orbit is
  \<open>0, -2 + 1.5 i, -0.25 - 4.5 i, -22.1875 + 3.75 i\<close>: the first three points pass both
  tests, the fourth fails both.
\<close>

lemma one_step_1:
  "cadd (cmul (Complex (- 2) (3 / 2)) (Complex (- 2) (3 / 2))) (Complex (- 2) (3 / 2)) = Complex (- 1 / 2 ^ 2) (- 9 / 2)"
proof -
  have p: "fl ((- 2) * (- 2)) = 4"
    using fl_eqI[of 2 "(- 2) * (- 2)" 4503599627370496] by (simp add: power_int_minus)
  have q: "fl ((3 / 2) * (3 / 2)) = 9 / 2 ^ 2"
    using fl_eqI[of 1 "(3 / 2) * (3 / 2)" 5066549580791808] by (simp add: power_int_minus)
  have r: "fl (4 - (9 / 2 ^ 2)) = 7 / 2 ^ 2"
    using fl_eqI[of 0 "4 - (9 / 2 ^ 2)" 7881299347898368] by (simp add: power_int_minus)
  have s: "fl ((- 2) * (3 / 2)) = - 3"
    using fl_eqI[of 1 "(- 2) * (3 / 2)" "- 6755399441055744"] by (simp add: power_int_minus)
  have u: "fl ((- 3) + (- 3)) = - 6"
    using fl_eqI[of 2 "(- 3) + (- 3)" "- 6755399441055744"] by (simp add: power_int_minus)
  have zr: "fl ((7 / 2 ^ 2) + (- 2)) = - 1 / 2 ^ 2"
    using fl_eqI[of "- 2" "(7 / 2 ^ 2) + (- 2)" "- 4503599627370496"] by (simp add: power_int_minus)
  have zi: "fl ((- 6) + (3 / 2)) = - 9 / 2"
    using fl_eqI[of 2 "(- 6) + (3 / 2)" "- 5066549580791808"] by (simp add: power_int_minus)
  show ?thesis by (rule cstep[OF p q r s u zr zi])
qed

lemma one_step_2:
  "cadd (cmul (Complex (- 1 / 2 ^ 2) (- 9 / 2)) (Complex (- 1 / 2 ^ 2) (- 9 / 2))) (Complex (- 2) (3 / 2)) = Complex (- 355 / 2 ^ 4) (15 / 2 ^ 2)"
proof -
  have p: "fl ((- 1 / 2 ^ 2) * (- 1 / 2 ^ 2)) = 1 / 2 ^ 4"
    using fl_eqI[of "- 4" "(- 1 / 2 ^ 2) * (- 1 / 2 ^ 2)" 4503599627370496] by (simp add: power_int_minus)
  have q: "fl ((- 9 / 2) * (- 9 / 2)) = 81 / 2 ^ 2"
    using fl_eqI[of 4 "(- 9 / 2) * (- 9 / 2)" 5699868278390784] by (simp add: power_int_minus)
  have r: "fl ((1 / 2 ^ 4) - (81 / 2 ^ 2)) = - 323 / 2 ^ 4"
    using fl_eqI[of 4 "(1 / 2 ^ 4) - (81 / 2 ^ 2)" "- 5682276092346368"] by (simp add: power_int_minus)
  have s: "fl ((- 1 / 2 ^ 2) * (- 9 / 2)) = 9 / 2 ^ 3"
    using fl_eqI[of 0 "(- 1 / 2 ^ 2) * (- 9 / 2)" 5066549580791808] by (simp add: power_int_minus)
  have u: "fl ((9 / 2 ^ 3) + (9 / 2 ^ 3)) = 9 / 2 ^ 2"
    using fl_eqI[of 1 "(9 / 2 ^ 3) + (9 / 2 ^ 3)" 5066549580791808] by (simp add: power_int_minus)
  have zr: "fl ((- 323 / 2 ^ 4) + (- 2)) = - 355 / 2 ^ 4"
    using fl_eqI[of 4 "(- 323 / 2 ^ 4) + (- 2)" "- 6245226045767680"] by (simp add: power_int_minus)
  have zi: "fl ((9 / 2 ^ 2) + (3 / 2)) = 15 / 2 ^ 2"
    using fl_eqI[of 1 "(9 / 2 ^ 2) + (3 / 2)" 8444249301319680] by (simp add: power_int_minus)
  show ?thesis by (rule cstep[OF p q r s u zr zi])
qed

lemma one_orbit_1: "orbit (Complex (- 2) (3 / 2)) 1 = Complex (- 2) (3 / 2)"
proof -
  have a: "fl ((- 2)) = - 2"
    using fl_eqI[of 1 "(- 2)" "- 4503599627370496"] by (simp add: power_int_minus)
  have b: "fl ((3 / 2)) = 3 / 2"
    using fl_eqI[of 0 "(3 / 2)" 6755399441055744] by (simp add: power_int_minus)
  have "orbit (Complex (- 2) (3 / 2)) (Suc 0) = Complex (- 2) (3 / 2)"
    unfolding orbit_1 by (simp only: complex.sel a b)
  then show ?thesis by simp
qed

lemma one_orbit_2: "orbit (Complex (- 2) (3 / 2)) 2 = Complex (- 1 / 2 ^ 2) (- 9 / 2)"
  by (rule orbit_next[OF one_orbit_1 one_step_1]) simp

lemma one_orbit_3: "orbit (Complex (- 2) (3 / 2)) 3 = Complex (- 355 / 2 ^ 4) (15 / 2 ^ 2)"
  by (rule orbit_next[OF one_orbit_2 one_step_2]) simp

lemma one_cell: "cell_c 1 0 0 = Complex (- 2) (3 / 2)"
proof -
  have f: "fl (real_of_int 1) = 1"
    using fl_eqI[of 0 "real_of_int 1" 4503599627370496] by (simp add: power_int_minus)
  have a: "fl (3 / 1) = 3"
    using fl_eqI[of 1 "3 / 1" 6755399441055744] by (simp add: power_int_minus)
  have j: "fl (real 0) = 0" by simp
  have b: "fl (3 * 0) = 0" by simp
  have re: "fl (- 2 + 0) = - 2"
    using fl_eqI[of 1 "- 2 + 0" "- 4503599627370496"] by (simp add: power_int_minus)
  have i: "fl (real 0) = 0" by simp
  have d: "fl (3 * 0) = 0" by simp
  have im: "fl (3 / 2 - 0) = 3 / 2"
    using fl_eqI[of 0 "3 / 2 - 0" 6755399441055744] by (simp add: power_int_minus)
  show ?thesis by (rule cell_cI[OF f a j b re i d im])
qed

lemma one_inside: "last_inside python_test (Complex (- 2) (3 / 2)) 100 2"
proof -
  have i0: "\<forall>t\<in>{0..0}. python_test (orbit (Complex (- 2) (3 / 2)) t)" by (simp add: python_test_zero)
  have "python_test (orbit (Complex (- 2) (3 / 2)) 1)"
    unfolding one_orbit_1 by (rule python_test_leI) (simp add: power2_eq_square)
  then have i1: "\<forall>t\<in>{0..1}. python_test (orbit (Complex (- 2) (3 / 2)) t)" by (rule ball_step[OF i0]) simp
  have "python_test (orbit (Complex (- 2) (3 / 2)) 2)"
    unfolding one_orbit_2 by (rule python_test_leI) (simp add: power2_eq_square)
  then have i2: "\<forall>t\<in>{0..2}. python_test (orbit (Complex (- 2) (3 / 2)) t)" by (rule ball_step[OF i1]) simp
  have "\<not> python_test (orbit (Complex (- 2) (3 / 2)) 3)"
    unfolding one_orbit_3 by (rule python_test_gtI) (simp add: power2_eq_square)
  then show ?thesis using i2 by (simp add: last_inside_def)
qed

lemma one_inside_cython: "last_inside cython_test (Complex (- 2) (3 / 2)) 100 2"
proof -
  let ?c = "Complex (- 2) (3 / 2)"
  have t0: "cython_test (orbit ?c 0)" by (simp add: cython_test_zero)
  have t1: "cython_test (orbit ?c 1)"
    unfolding one_orbit_1 by (rule cython_test_boundI[of _ 4 3]) simp_all
  have t2: "cython_test (orbit ?c 2)"
    unfolding one_orbit_2 by (rule cython_test_boundI[of _ 1 21]) simp_all
  have t3: "\<not> cython_test (orbit ?c 3)"
    unfolding one_orbit_3 by (rule cython_test_boundD[of 492 _ 14]) simp_all
  have "\<forall>t\<in>{0..2}. cython_test (orbit ?c t)"
  proof
    fix t :: nat assume "t \<in> {0..2}"
    then have "t = 0 \<or> t = 1 \<or> t = 2" by auto
    with t0 t1 t2 show "cython_test (orbit ?c t)" by blast
  qed
  with t3 show ?thesis by (simp add: last_inside_def)
qed

text \<open>
  On the grid of side 1 the parameter has modulus \<open>2.5 > 2\<close>, and with \<open>K = 100\<close> both
  functions record 2, not 0.
\<close>

theorem escape_radius_counterexample:
  "cell_c 1 0 0 = Complex (- 2) (3 / 2) \<and> cmod (cell_c 1 0 0) = 5 / 2 \<and>
   result_cell (mandelbrot_python \<lparr>cells = [[0]], writes = []\<rparr> 1 100) 0 0 = Inr 2 \<and>
   result_cell (mandelbrot_cython \<lparr>cells = [[0]], writes = []\<rparr> 1 100) 0 0 = Inr 2"
proof -
  have f: "fits \<lparr>cells = [[0]], writes = []\<rparr> (nat 1)" by (simp add: fits_def)
  have s: "sint (1 :: 32 word) = 1" "sint (100 :: 32 word) = 100" by simp_all
  have "sqrt ((5 / 2)\<^sup>2) = (5 / 2 :: real)" by simp
  then have "sqrt (25 / 4) = (5 / 2 :: real)" by (simp add: power2_eq_square)
  then have c: "cmod (Complex (- 2) (3 / 2)) = 5 / 2" by (simp add: cmod_def power2_eq_square)
  have lp: "last_inside python_test (cell_c 1 0 0) (nat 100) 2"
    using one_inside by (simp only: one_cell nat_numeral)
  have lq: "last_inside cython_test (cell_c (sint (1 :: 32 word)) 0 0) (nat (sint (100 :: 32 word))) 2"
    using one_inside_cython by (simp only: s one_cell nat_numeral)
  have "result_cell (mandelbrot_python \<lparr>cells = [[0]], writes = []\<rparr> 1 100) 0 0 = Inr (int 2)"
    by (rule python_cell_value[OF _ _ f _ _ lp]) simp_all
  then have p: "result_cell (mandelbrot_python \<lparr>cells = [[0]], writes = []\<rparr> 1 100) 0 0 = Inr 2"
    by simp
  have "result_cell (mandelbrot_cython \<lparr>cells = [[0]], writes = []\<rparr> 1 100) 0 0 = Inr (int 2)"
    by (rule cython_cell_value[OF _ _ _ _ _ lq]) (simp_all add: fits_def)
  then have q: "result_cell (mandelbrot_cython \<lparr>cells = [[0]], writes = []\<rparr> 1 100) 0 0 = Inr 2"
    by simp
  have c': "cmod (cell_c 1 0 0) = 5 / 2" unfolding one_cell by (rule c)
  show ?thesis by (intro conjI) (fact one_cell c' p q)+
qed

text \<open>
  Cell \<open>(47, 0)\<close> of the grid of side 94. The code computes
  \<open>3./94*47 = 1.4999999999999998\<close>, so the parameter is \<open>c = -2 + 2\<^sup>-\<^sup>5\<^sup>2 i\<close>; the
  computed orbit moves away from 2, and its point of index 29 fails the test.
\<close>

lemma c94_step_1:
  "cadd (cmul (Complex (- 2) (1 / 2 ^ 52)) (Complex (- 2) (1 / 2 ^ 52))) (Complex (- 2) (1 / 2 ^ 52)) = Complex 2 (- 3 / 2 ^ 52)"
proof -
  have p: "fl ((- 2) * (- 2)) = 4"
    using fl_eqI[of 2 "(- 2) * (- 2)" 4503599627370496] by (simp add: power_int_minus)
  have q: "fl ((1 / 2 ^ 52) * (1 / 2 ^ 52)) = 1 / 2 ^ 104"
    using fl_eqI[of "- 104" "(1 / 2 ^ 52) * (1 / 2 ^ 52)" 4503599627370496] by (simp add: power_int_minus)
  have r: "fl (4 - (1 / 2 ^ 104)) = 4"
    using fl_eqI[of 1 "4 - (1 / 2 ^ 104)" 9007199254740992] by (simp add: power_int_minus)
  have s: "fl ((- 2) * (1 / 2 ^ 52)) = - 1 / 2 ^ 51"
    using fl_eqI[of "- 51" "(- 2) * (1 / 2 ^ 52)" "- 4503599627370496"] by (simp add: power_int_minus)
  have u: "fl ((- 1 / 2 ^ 51) + (- 1 / 2 ^ 51)) = - 1 / 2 ^ 50"
    using fl_eqI[of "- 50" "(- 1 / 2 ^ 51) + (- 1 / 2 ^ 51)" "- 4503599627370496"] by (simp add: power_int_minus)
  have zr: "fl (4 + (- 2)) = 2"
    using fl_eqI[of 1 "4 + (- 2)" 4503599627370496] by (simp add: power_int_minus)
  have zi: "fl ((- 1 / 2 ^ 50) + (1 / 2 ^ 52)) = - 3 / 2 ^ 52"
    using fl_eqI[of "- 51" "(- 1 / 2 ^ 50) + (1 / 2 ^ 52)" "- 6755399441055744"] by (simp add: power_int_minus)
  show ?thesis by (rule cstep[OF p q r s u zr zi])
qed

lemma c94_step_2:
  "cadd (cmul (Complex 2 (- 3 / 2 ^ 52)) (Complex 2 (- 3 / 2 ^ 52))) (Complex (- 2) (1 / 2 ^ 52)) = Complex 2 (- 11 / 2 ^ 52)"
proof -
  have p: "fl (2 * 2) = 4"
    using fl_eqI[of 2 "2 * 2" 4503599627370496] by (simp add: power_int_minus)
  have q: "fl ((- 3 / 2 ^ 52) * (- 3 / 2 ^ 52)) = 9 / 2 ^ 104"
    using fl_eqI[of "- 101" "(- 3 / 2 ^ 52) * (- 3 / 2 ^ 52)" 5066549580791808] by (simp add: power_int_minus)
  have r: "fl (4 - (9 / 2 ^ 104)) = 4"
    using fl_eqI[of 1 "4 - (9 / 2 ^ 104)" 9007199254740992] by (simp add: power_int_minus)
  have s: "fl (2 * (- 3 / 2 ^ 52)) = - 3 / 2 ^ 51"
    using fl_eqI[of "- 50" "2 * (- 3 / 2 ^ 52)" "- 6755399441055744"] by (simp add: power_int_minus)
  have u: "fl ((- 3 / 2 ^ 51) + (- 3 / 2 ^ 51)) = - 3 / 2 ^ 50"
    using fl_eqI[of "- 49" "(- 3 / 2 ^ 51) + (- 3 / 2 ^ 51)" "- 6755399441055744"] by (simp add: power_int_minus)
  have zr: "fl (4 + (- 2)) = 2"
    using fl_eqI[of 1 "4 + (- 2)" 4503599627370496] by (simp add: power_int_minus)
  have zi: "fl ((- 3 / 2 ^ 50) + (1 / 2 ^ 52)) = - 11 / 2 ^ 52"
    using fl_eqI[of "- 49" "(- 3 / 2 ^ 50) + (1 / 2 ^ 52)" "- 6192449487634432"] by (simp add: power_int_minus)
  show ?thesis by (rule cstep[OF p q r s u zr zi])
qed

lemma c94_step_3:
  "cadd (cmul (Complex 2 (- 11 / 2 ^ 52)) (Complex 2 (- 11 / 2 ^ 52))) (Complex (- 2) (1 / 2 ^ 52)) = Complex 2 (- 43 / 2 ^ 52)"
proof -
  have p: "fl (2 * 2) = 4"
    using fl_eqI[of 2 "2 * 2" 4503599627370496] by (simp add: power_int_minus)
  have q: "fl ((- 11 / 2 ^ 52) * (- 11 / 2 ^ 52)) = 121 / 2 ^ 104"
    using fl_eqI[of "- 98" "(- 11 / 2 ^ 52) * (- 11 / 2 ^ 52)" 8514618045497344] by (simp add: power_int_minus)
  have r: "fl (4 - (121 / 2 ^ 104)) = 4"
    using fl_eqI[of 1 "4 - (121 / 2 ^ 104)" 9007199254740992] by (simp add: power_int_minus)
  have s: "fl (2 * (- 11 / 2 ^ 52)) = - 11 / 2 ^ 51"
    using fl_eqI[of "- 48" "2 * (- 11 / 2 ^ 52)" "- 6192449487634432"] by (simp add: power_int_minus)
  have u: "fl ((- 11 / 2 ^ 51) + (- 11 / 2 ^ 51)) = - 11 / 2 ^ 50"
    using fl_eqI[of "- 47" "(- 11 / 2 ^ 51) + (- 11 / 2 ^ 51)" "- 6192449487634432"] by (simp add: power_int_minus)
  have zr: "fl (4 + (- 2)) = 2"
    using fl_eqI[of 1 "4 + (- 2)" 4503599627370496] by (simp add: power_int_minus)
  have zi: "fl ((- 11 / 2 ^ 50) + (1 / 2 ^ 52)) = - 43 / 2 ^ 52"
    using fl_eqI[of "- 47" "(- 11 / 2 ^ 50) + (1 / 2 ^ 52)" "- 6051711999279104"] by (simp add: power_int_minus)
  show ?thesis by (rule cstep[OF p q r s u zr zi])
qed

lemma c94_step_4:
  "cadd (cmul (Complex 2 (- 43 / 2 ^ 52)) (Complex 2 (- 43 / 2 ^ 52))) (Complex (- 2) (1 / 2 ^ 52)) = Complex 2 (- 171 / 2 ^ 52)"
proof -
  have p: "fl (2 * 2) = 4"
    using fl_eqI[of 2 "2 * 2" 4503599627370496] by (simp add: power_int_minus)
  have q: "fl ((- 43 / 2 ^ 52) * (- 43 / 2 ^ 52)) = 1849 / 2 ^ 104"
    using fl_eqI[of "- 94" "(- 43 / 2 ^ 52) * (- 43 / 2 ^ 52)" 8131987999031296] by (simp add: power_int_minus)
  have r: "fl (4 - (1849 / 2 ^ 104)) = 4"
    using fl_eqI[of 1 "4 - (1849 / 2 ^ 104)" 9007199254740992] by (simp add: power_int_minus)
  have s: "fl (2 * (- 43 / 2 ^ 52)) = - 43 / 2 ^ 51"
    using fl_eqI[of "- 46" "2 * (- 43 / 2 ^ 52)" "- 6051711999279104"] by (simp add: power_int_minus)
  have u: "fl ((- 43 / 2 ^ 51) + (- 43 / 2 ^ 51)) = - 43 / 2 ^ 50"
    using fl_eqI[of "- 45" "(- 43 / 2 ^ 51) + (- 43 / 2 ^ 51)" "- 6051711999279104"] by (simp add: power_int_minus)
  have zr: "fl (4 + (- 2)) = 2"
    using fl_eqI[of 1 "4 + (- 2)" 4503599627370496] by (simp add: power_int_minus)
  have zi: "fl ((- 43 / 2 ^ 50) + (1 / 2 ^ 52)) = - 171 / 2 ^ 52"
    using fl_eqI[of "- 45" "(- 43 / 2 ^ 50) + (1 / 2 ^ 52)" "- 6016527627190272"] by (simp add: power_int_minus)
  show ?thesis by (rule cstep[OF p q r s u zr zi])
qed

lemma c94_step_5:
  "cadd (cmul (Complex 2 (- 171 / 2 ^ 52)) (Complex 2 (- 171 / 2 ^ 52))) (Complex (- 2) (1 / 2 ^ 52)) = Complex 2 (- 683 / 2 ^ 52)"
proof -
  have p: "fl (2 * 2) = 4"
    using fl_eqI[of 2 "2 * 2" 4503599627370496] by (simp add: power_int_minus)
  have q: "fl ((- 171 / 2 ^ 52) * (- 171 / 2 ^ 52)) = 29241 / 2 ^ 104"
    using fl_eqI[of "- 90" "(- 171 / 2 ^ 52) * (- 171 / 2 ^ 52)" 8037704876949504] by (simp add: power_int_minus)
  have r: "fl (4 - (29241 / 2 ^ 104)) = 4"
    using fl_eqI[of 1 "4 - (29241 / 2 ^ 104)" 9007199254740992] by (simp add: power_int_minus)
  have s: "fl (2 * (- 171 / 2 ^ 52)) = - 171 / 2 ^ 51"
    using fl_eqI[of "- 44" "2 * (- 171 / 2 ^ 52)" "- 6016527627190272"] by (simp add: power_int_minus)
  have u: "fl ((- 171 / 2 ^ 51) + (- 171 / 2 ^ 51)) = - 171 / 2 ^ 50"
    using fl_eqI[of "- 43" "(- 171 / 2 ^ 51) + (- 171 / 2 ^ 51)" "- 6016527627190272"] by (simp add: power_int_minus)
  have zr: "fl (4 + (- 2)) = 2"
    using fl_eqI[of 1 "4 + (- 2)" 4503599627370496] by (simp add: power_int_minus)
  have zi: "fl ((- 171 / 2 ^ 50) + (1 / 2 ^ 52)) = - 683 / 2 ^ 52"
    using fl_eqI[of "- 43" "(- 171 / 2 ^ 50) + (1 / 2 ^ 52)" "- 6007731534168064"] by (simp add: power_int_minus)
  show ?thesis by (rule cstep[OF p q r s u zr zi])
qed

lemma c94_step_6:
  "cadd (cmul (Complex 2 (- 683 / 2 ^ 52)) (Complex 2 (- 683 / 2 ^ 52))) (Complex (- 2) (1 / 2 ^ 52)) = Complex 2 (- 2731 / 2 ^ 52)"
proof -
  have p: "fl (2 * 2) = 4"
    using fl_eqI[of 2 "2 * 2" 4503599627370496] by (simp add: power_int_minus)
  have q: "fl ((- 683 / 2 ^ 52) * (- 683 / 2 ^ 52)) = 466489 / 2 ^ 104"
    using fl_eqI[of "- 86" "(- 683 / 2 ^ 52) * (- 683 / 2 ^ 52)" 8014219995774976] by (simp add: power_int_minus)
  have r: "fl (4 - (466489 / 2 ^ 104)) = 4"
    using fl_eqI[of 1 "4 - (466489 / 2 ^ 104)" 9007199254740992] by (simp add: power_int_minus)
  have s: "fl (2 * (- 683 / 2 ^ 52)) = - 683 / 2 ^ 51"
    using fl_eqI[of "- 42" "2 * (- 683 / 2 ^ 52)" "- 6007731534168064"] by (simp add: power_int_minus)
  have u: "fl ((- 683 / 2 ^ 51) + (- 683 / 2 ^ 51)) = - 683 / 2 ^ 50"
    using fl_eqI[of "- 41" "(- 683 / 2 ^ 51) + (- 683 / 2 ^ 51)" "- 6007731534168064"] by (simp add: power_int_minus)
  have zr: "fl (4 + (- 2)) = 2"
    using fl_eqI[of 1 "4 + (- 2)" 4503599627370496] by (simp add: power_int_minus)
  have zi: "fl ((- 683 / 2 ^ 50) + (1 / 2 ^ 52)) = - 2731 / 2 ^ 52"
    using fl_eqI[of "- 41" "(- 683 / 2 ^ 50) + (1 / 2 ^ 52)" "- 6005532510912512"] by (simp add: power_int_minus)
  show ?thesis by (rule cstep[OF p q r s u zr zi])
qed

lemma c94_step_7:
  "cadd (cmul (Complex 2 (- 2731 / 2 ^ 52)) (Complex 2 (- 2731 / 2 ^ 52))) (Complex (- 2) (1 / 2 ^ 52)) = Complex 2 (- 10923 / 2 ^ 52)"
proof -
  have p: "fl (2 * 2) = 4"
    using fl_eqI[of 2 "2 * 2" 4503599627370496] by (simp add: power_int_minus)
  have q: "fl ((- 2731 / 2 ^ 52) * (- 2731 / 2 ^ 52)) = 7458361 / 2 ^ 104"
    using fl_eqI[of "- 82" "(- 2731 / 2 ^ 52) * (- 2731 / 2 ^ 52)" 8008354144190464] by (simp add: power_int_minus)
  have r: "fl (4 - (7458361 / 2 ^ 104)) = 4"
    using fl_eqI[of 1 "4 - (7458361 / 2 ^ 104)" 9007199254740992] by (simp add: power_int_minus)
  have s: "fl (2 * (- 2731 / 2 ^ 52)) = - 2731 / 2 ^ 51"
    using fl_eqI[of "- 40" "2 * (- 2731 / 2 ^ 52)" "- 6005532510912512"] by (simp add: power_int_minus)
  have u: "fl ((- 2731 / 2 ^ 51) + (- 2731 / 2 ^ 51)) = - 2731 / 2 ^ 50"
    using fl_eqI[of "- 39" "(- 2731 / 2 ^ 51) + (- 2731 / 2 ^ 51)" "- 6005532510912512"] by (simp add: power_int_minus)
  have zr: "fl (4 + (- 2)) = 2"
    using fl_eqI[of 1 "4 + (- 2)" 4503599627370496] by (simp add: power_int_minus)
  have zi: "fl ((- 2731 / 2 ^ 50) + (1 / 2 ^ 52)) = - 10923 / 2 ^ 52"
    using fl_eqI[of "- 39" "(- 2731 / 2 ^ 50) + (1 / 2 ^ 52)" "- 6004982755098624"] by (simp add: power_int_minus)
  show ?thesis by (rule cstep[OF p q r s u zr zi])
qed

lemma c94_step_8:
  "cadd (cmul (Complex 2 (- 10923 / 2 ^ 52)) (Complex 2 (- 10923 / 2 ^ 52))) (Complex (- 2) (1 / 2 ^ 52)) = Complex 2 (- 43691 / 2 ^ 52)"
proof -
  have p: "fl (2 * 2) = 4"
    using fl_eqI[of 2 "2 * 2" 4503599627370496] by (simp add: power_int_minus)
  have q: "fl ((- 10923 / 2 ^ 52) * (- 10923 / 2 ^ 52)) = 119311929 / 2 ^ 104"
    using fl_eqI[of "- 78" "(- 10923 / 2 ^ 52) * (- 10923 / 2 ^ 52)" 8006888016838656] by (simp add: power_int_minus)
  have r: "fl (4 - (119311929 / 2 ^ 104)) = 4"
    using fl_eqI[of 1 "4 - (119311929 / 2 ^ 104)" 9007199254740992] by (simp add: power_int_minus)
  have s: "fl (2 * (- 10923 / 2 ^ 52)) = - 10923 / 2 ^ 51"
    using fl_eqI[of "- 38" "2 * (- 10923 / 2 ^ 52)" "- 6004982755098624"] by (simp add: power_int_minus)
  have u: "fl ((- 10923 / 2 ^ 51) + (- 10923 / 2 ^ 51)) = - 10923 / 2 ^ 50"
    using fl_eqI[of "- 37" "(- 10923 / 2 ^ 51) + (- 10923 / 2 ^ 51)" "- 6004982755098624"] by (simp add: power_int_minus)
  have zr: "fl (4 + (- 2)) = 2"
    using fl_eqI[of 1 "4 + (- 2)" 4503599627370496] by (simp add: power_int_minus)
  have zi: "fl ((- 10923 / 2 ^ 50) + (1 / 2 ^ 52)) = - 43691 / 2 ^ 52"
    using fl_eqI[of "- 37" "(- 10923 / 2 ^ 50) + (1 / 2 ^ 52)" "- 6004845316145152"] by (simp add: power_int_minus)
  show ?thesis by (rule cstep[OF p q r s u zr zi])
qed

lemma c94_step_9:
  "cadd (cmul (Complex 2 (- 43691 / 2 ^ 52)) (Complex 2 (- 43691 / 2 ^ 52))) (Complex (- 2) (1 / 2 ^ 52)) = Complex 2 (- 174763 / 2 ^ 52)"
proof -
  have p: "fl (2 * 2) = 4"
    using fl_eqI[of 2 "2 * 2" 4503599627370496] by (simp add: power_int_minus)
  have q: "fl ((- 43691 / 2 ^ 52) * (- 43691 / 2 ^ 52)) = 1908903481 / 2 ^ 104"
    using fl_eqI[of "- 74" "(- 43691 / 2 ^ 52) * (- 43691 / 2 ^ 52)" 8006521505972224] by (simp add: power_int_minus)
  have r: "fl (4 - (1908903481 / 2 ^ 104)) = 4"
    using fl_eqI[of 1 "4 - (1908903481 / 2 ^ 104)" 9007199254740992] by (simp add: power_int_minus)
  have s: "fl (2 * (- 43691 / 2 ^ 52)) = - 43691 / 2 ^ 51"
    using fl_eqI[of "- 36" "2 * (- 43691 / 2 ^ 52)" "- 6004845316145152"] by (simp add: power_int_minus)
  have u: "fl ((- 43691 / 2 ^ 51) + (- 43691 / 2 ^ 51)) = - 43691 / 2 ^ 50"
    using fl_eqI[of "- 35" "(- 43691 / 2 ^ 51) + (- 43691 / 2 ^ 51)" "- 6004845316145152"] by (simp add: power_int_minus)
  have zr: "fl (4 + (- 2)) = 2"
    using fl_eqI[of 1 "4 + (- 2)" 4503599627370496] by (simp add: power_int_minus)
  have zi: "fl ((- 43691 / 2 ^ 50) + (1 / 2 ^ 52)) = - 174763 / 2 ^ 52"
    using fl_eqI[of "- 35" "(- 43691 / 2 ^ 50) + (1 / 2 ^ 52)" "- 6004810956406784"] by (simp add: power_int_minus)
  show ?thesis by (rule cstep[OF p q r s u zr zi])
qed

lemma c94_step_10:
  "cadd (cmul (Complex 2 (- 174763 / 2 ^ 52)) (Complex 2 (- 174763 / 2 ^ 52))) (Complex (- 2) (1 / 2 ^ 52)) = Complex 2 (- 699051 / 2 ^ 52)"
proof -
  have p: "fl (2 * 2) = 4"
    using fl_eqI[of 2 "2 * 2" 4503599627370496] by (simp add: power_int_minus)
  have q: "fl ((- 174763 / 2 ^ 52) * (- 174763 / 2 ^ 52)) = 30542106169 / 2 ^ 104"
    using fl_eqI[of "- 70" "(- 174763 / 2 ^ 52) * (- 174763 / 2 ^ 52)" 8006429879566336] by (simp add: power_int_minus)
  have r: "fl (4 - (30542106169 / 2 ^ 104)) = 4"
    using fl_eqI[of 1 "4 - (30542106169 / 2 ^ 104)" 9007199254740992] by (simp add: power_int_minus)
  have s: "fl (2 * (- 174763 / 2 ^ 52)) = - 174763 / 2 ^ 51"
    using fl_eqI[of "- 34" "2 * (- 174763 / 2 ^ 52)" "- 6004810956406784"] by (simp add: power_int_minus)
  have u: "fl ((- 174763 / 2 ^ 51) + (- 174763 / 2 ^ 51)) = - 174763 / 2 ^ 50"
    using fl_eqI[of "- 33" "(- 174763 / 2 ^ 51) + (- 174763 / 2 ^ 51)" "- 6004810956406784"] by (simp add: power_int_minus)
  have zr: "fl (4 + (- 2)) = 2"
    using fl_eqI[of 1 "4 + (- 2)" 4503599627370496] by (simp add: power_int_minus)
  have zi: "fl ((- 174763 / 2 ^ 50) + (1 / 2 ^ 52)) = - 699051 / 2 ^ 52"
    using fl_eqI[of "- 33" "(- 174763 / 2 ^ 50) + (1 / 2 ^ 52)" "- 6004802366472192"] by (simp add: power_int_minus)
  show ?thesis by (rule cstep[OF p q r s u zr zi])
qed

lemma c94_step_11:
  "cadd (cmul (Complex 2 (- 699051 / 2 ^ 52)) (Complex 2 (- 699051 / 2 ^ 52))) (Complex (- 2) (1 / 2 ^ 52)) = Complex 2 (- 2796203 / 2 ^ 52)"
proof -
  have p: "fl (2 * 2) = 4"
    using fl_eqI[of 2 "2 * 2" 4503599627370496] by (simp add: power_int_minus)
  have q: "fl ((- 699051 / 2 ^ 52) * (- 699051 / 2 ^ 52)) = 488672300601 / 2 ^ 104"
    using fl_eqI[of "- 66" "(- 699051 / 2 ^ 52) * (- 699051 / 2 ^ 52)" 8006406973046784] by (simp add: power_int_minus)
  have r: "fl (4 - (488672300601 / 2 ^ 104)) = 4"
    using fl_eqI[of 1 "4 - (488672300601 / 2 ^ 104)" 9007199254740992] by (simp add: power_int_minus)
  have s: "fl (2 * (- 699051 / 2 ^ 52)) = - 699051 / 2 ^ 51"
    using fl_eqI[of "- 32" "2 * (- 699051 / 2 ^ 52)" "- 6004802366472192"] by (simp add: power_int_minus)
  have u: "fl ((- 699051 / 2 ^ 51) + (- 699051 / 2 ^ 51)) = - 699051 / 2 ^ 50"
    using fl_eqI[of "- 31" "(- 699051 / 2 ^ 51) + (- 699051 / 2 ^ 51)" "- 6004802366472192"] by (simp add: power_int_minus)
  have zr: "fl (4 + (- 2)) = 2"
    using fl_eqI[of 1 "4 + (- 2)" 4503599627370496] by (simp add: power_int_minus)
  have zi: "fl ((- 699051 / 2 ^ 50) + (1 / 2 ^ 52)) = - 2796203 / 2 ^ 52"
    using fl_eqI[of "- 31" "(- 699051 / 2 ^ 50) + (1 / 2 ^ 52)" "- 6004800218988544"] by (simp add: power_int_minus)
  show ?thesis by (rule cstep[OF p q r s u zr zi])
qed

lemma c94_step_12:
  "cadd (cmul (Complex 2 (- 2796203 / 2 ^ 52)) (Complex 2 (- 2796203 / 2 ^ 52))) (Complex (- 2) (1 / 2 ^ 52)) = Complex 2 (- 11184811 / 2 ^ 52)"
proof -
  have p: "fl (2 * 2) = 4"
    using fl_eqI[of 2 "2 * 2" 4503599627370496] by (simp add: power_int_minus)
  have q: "fl ((- 2796203 / 2 ^ 52) * (- 2796203 / 2 ^ 52)) = 7818751217209 / 2 ^ 104"
    using fl_eqI[of "- 62" "(- 2796203 / 2 ^ 52) * (- 2796203 / 2 ^ 52)" 8006401246422016] by (simp add: power_int_minus)
  have r: "fl (4 - (7818751217209 / 2 ^ 104)) = 4"
    using fl_eqI[of 1 "4 - (7818751217209 / 2 ^ 104)" 9007199254740992] by (simp add: power_int_minus)
  have s: "fl (2 * (- 2796203 / 2 ^ 52)) = - 2796203 / 2 ^ 51"
    using fl_eqI[of "- 30" "2 * (- 2796203 / 2 ^ 52)" "- 6004800218988544"] by (simp add: power_int_minus)
  have u: "fl ((- 2796203 / 2 ^ 51) + (- 2796203 / 2 ^ 51)) = - 2796203 / 2 ^ 50"
    using fl_eqI[of "- 29" "(- 2796203 / 2 ^ 51) + (- 2796203 / 2 ^ 51)" "- 6004800218988544"] by (simp add: power_int_minus)
  have zr: "fl (4 + (- 2)) = 2"
    using fl_eqI[of 1 "4 + (- 2)" 4503599627370496] by (simp add: power_int_minus)
  have zi: "fl ((- 2796203 / 2 ^ 50) + (1 / 2 ^ 52)) = - 11184811 / 2 ^ 52"
    using fl_eqI[of "- 29" "(- 2796203 / 2 ^ 50) + (1 / 2 ^ 52)" "- 6004799682117632"] by (simp add: power_int_minus)
  show ?thesis by (rule cstep[OF p q r s u zr zi])
qed

lemma c94_step_13:
  "cadd (cmul (Complex 2 (- 11184811 / 2 ^ 52)) (Complex 2 (- 11184811 / 2 ^ 52))) (Complex (- 2) (1 / 2 ^ 52)) = Complex 2 (- 44739243 / 2 ^ 52)"
proof -
  have p: "fl (2 * 2) = 4"
    using fl_eqI[of 2 "2 * 2" 4503599627370496] by (simp add: power_int_minus)
  have q: "fl ((- 11184811 / 2 ^ 52) * (- 11184811 / 2 ^ 52)) = 125099997105721 / 2 ^ 104"
    using fl_eqI[of "- 58" "(- 11184811 / 2 ^ 52) * (- 11184811 / 2 ^ 52)" 8006399814766144] by (simp add: power_int_minus)
  have r: "fl (4 - (125099997105721 / 2 ^ 104)) = 4"
    using fl_eqI[of 1 "4 - (125099997105721 / 2 ^ 104)" 9007199254740992] by (simp add: power_int_minus)
  have s: "fl (2 * (- 11184811 / 2 ^ 52)) = - 11184811 / 2 ^ 51"
    using fl_eqI[of "- 28" "2 * (- 11184811 / 2 ^ 52)" "- 6004799682117632"] by (simp add: power_int_minus)
  have u: "fl ((- 11184811 / 2 ^ 51) + (- 11184811 / 2 ^ 51)) = - 11184811 / 2 ^ 50"
    using fl_eqI[of "- 27" "(- 11184811 / 2 ^ 51) + (- 11184811 / 2 ^ 51)" "- 6004799682117632"] by (simp add: power_int_minus)
  have zr: "fl (4 + (- 2)) = 2"
    using fl_eqI[of 1 "4 + (- 2)" 4503599627370496] by (simp add: power_int_minus)
  have zi: "fl ((- 11184811 / 2 ^ 50) + (1 / 2 ^ 52)) = - 44739243 / 2 ^ 52"
    using fl_eqI[of "- 27" "(- 11184811 / 2 ^ 50) + (1 / 2 ^ 52)" "- 6004799547899904"] by (simp add: power_int_minus)
  show ?thesis by (rule cstep[OF p q r s u zr zi])
qed

lemma c94_step_14:
  "cadd (cmul (Complex 2 (- 44739243 / 2 ^ 52)) (Complex 2 (- 44739243 / 2 ^ 52))) (Complex (- 2) (1 / 2 ^ 52)) = Complex 2 (- 178956971 / 2 ^ 52)"
proof -
  have p: "fl (2 * 2) = 4"
    using fl_eqI[of 2 "2 * 2" 4503599627370496] by (simp add: power_int_minus)
  have q: "fl ((- 44739243 / 2 ^ 52) * (- 44739243 / 2 ^ 52)) = 2001599864213049 / 2 ^ 104"
    using fl_eqI[of "- 54" "(- 44739243 / 2 ^ 52) * (- 44739243 / 2 ^ 52)" 8006399456852196] by (simp add: power_int_minus)
  have r: "fl (4 - (2001599864213049 / 2 ^ 104)) = 4"
    using fl_eqI[of 1 "4 - (2001599864213049 / 2 ^ 104)" 9007199254740992] by (simp add: power_int_minus)
  have s: "fl (2 * (- 44739243 / 2 ^ 52)) = - 44739243 / 2 ^ 51"
    using fl_eqI[of "- 26" "2 * (- 44739243 / 2 ^ 52)" "- 6004799547899904"] by (simp add: power_int_minus)
  have u: "fl ((- 44739243 / 2 ^ 51) + (- 44739243 / 2 ^ 51)) = - 44739243 / 2 ^ 50"
    using fl_eqI[of "- 25" "(- 44739243 / 2 ^ 51) + (- 44739243 / 2 ^ 51)" "- 6004799547899904"] by (simp add: power_int_minus)
  have zr: "fl (4 + (- 2)) = 2"
    using fl_eqI[of 1 "4 + (- 2)" 4503599627370496] by (simp add: power_int_minus)
  have zi: "fl ((- 44739243 / 2 ^ 50) + (1 / 2 ^ 52)) = - 178956971 / 2 ^ 52"
    using fl_eqI[of "- 25" "(- 44739243 / 2 ^ 50) + (1 / 2 ^ 52)" "- 6004799514345472"] by (simp add: power_int_minus)
  show ?thesis by (rule cstep[OF p q r s u zr zi])
qed

lemma c94_step_15:
  "cadd (cmul (Complex 2 (- 178956971 / 2 ^ 52)) (Complex 2 (- 178956971 / 2 ^ 52))) (Complex (- 2) (1 / 2 ^ 52)) = Complex (1125899906842623 / 2 ^ 49) (- 715827883 / 2 ^ 52)"
proof -
  have p: "fl (2 * 2) = 4"
    using fl_eqI[of 2 "2 * 2" 4503599627370496] by (simp add: power_int_minus)
  have q: "fl ((- 178956971 / 2 ^ 52) * (- 178956971 / 2 ^ 52)) = 4003199683686855 / 2 ^ 101"
    using fl_eqI[of "- 50" "(- 178956971 / 2 ^ 52) * (- 178956971 / 2 ^ 52)" 8006399367373710] by (simp add: power_int_minus)
  have r: "fl (4 - (4003199683686855 / 2 ^ 101)) = 2251799813685247 / 2 ^ 49"
    using fl_eqI[of 1 "4 - (4003199683686855 / 2 ^ 101)" 9007199254740988] by (simp add: power_int_minus)
  have s: "fl (2 * (- 178956971 / 2 ^ 52)) = - 178956971 / 2 ^ 51"
    using fl_eqI[of "- 24" "2 * (- 178956971 / 2 ^ 52)" "- 6004799514345472"] by (simp add: power_int_minus)
  have u: "fl ((- 178956971 / 2 ^ 51) + (- 178956971 / 2 ^ 51)) = - 178956971 / 2 ^ 50"
    using fl_eqI[of "- 23" "(- 178956971 / 2 ^ 51) + (- 178956971 / 2 ^ 51)" "- 6004799514345472"] by (simp add: power_int_minus)
  have zr: "fl ((2251799813685247 / 2 ^ 49) + (- 2)) = 1125899906842623 / 2 ^ 49"
    using fl_eqI[of 0 "(2251799813685247 / 2 ^ 49) + (- 2)" 9007199254740984] by (simp add: power_int_minus)
  have zi: "fl ((- 178956971 / 2 ^ 50) + (1 / 2 ^ 52)) = - 715827883 / 2 ^ 52"
    using fl_eqI[of "- 23" "(- 178956971 / 2 ^ 50) + (1 / 2 ^ 52)" "- 6004799505956864"] by (simp add: power_int_minus)
  show ?thesis by (rule cstep[OF p q r s u zr zi])
qed

lemma c94_step_16:
  "cadd (cmul (Complex (1125899906842623 / 2 ^ 49) (- 715827883 / 2 ^ 52)) (Complex (1125899906842623 / 2 ^ 49) (- 715827883 / 2 ^ 52))) (Complex (- 2) (1 / 2 ^ 52)) = Complex (4503599627370423 / 2 ^ 51) (- 6004799503859707 / 2 ^ 73)"
proof -
  have p: "fl ((1125899906842623 / 2 ^ 49) * (1125899906842623 / 2 ^ 49)) = 562949953421311 / 2 ^ 47"
    using fl_eqI[of 1 "(1125899906842623 / 2 ^ 49) * (1125899906842623 / 2 ^ 49)" 9007199254740976] by (simp add: power_int_minus)
  have q: "fl ((- 715827883 / 2 ^ 52) * (- 715827883 / 2 ^ 52)) = 8006399345004089 / 2 ^ 98"
    using fl_eqI[of "- 46" "(- 715827883 / 2 ^ 52) * (- 715827883 / 2 ^ 52)" 8006399345004089] by (simp add: power_int_minus)
  have r: "fl ((562949953421311 / 2 ^ 47) - (8006399345004089 / 2 ^ 98)) = 9007199254740919 / 2 ^ 51"
    using fl_eqI[of 1 "(562949953421311 / 2 ^ 47) - (8006399345004089 / 2 ^ 98)" 9007199254740919] by (simp add: power_int_minus)
  have s: "fl ((1125899906842623 / 2 ^ 49) * (- 715827883 / 2 ^ 52)) = - 6004799505956859 / 2 ^ 74"
    using fl_eqI[of "- 22" "(1125899906842623 / 2 ^ 49) * (- 715827883 / 2 ^ 52)" "- 6004799505956859"] by (simp add: power_int_minus)
  have u: "fl ((- 6004799505956859 / 2 ^ 74) + (- 6004799505956859 / 2 ^ 74)) = - 6004799505956859 / 2 ^ 73"
    using fl_eqI[of "- 21" "(- 6004799505956859 / 2 ^ 74) + (- 6004799505956859 / 2 ^ 74)" "- 6004799505956859"] by (simp add: power_int_minus)
  have zr: "fl ((9007199254740919 / 2 ^ 51) + (- 2)) = 4503599627370423 / 2 ^ 51"
    using fl_eqI[of 0 "(9007199254740919 / 2 ^ 51) + (- 2)" 9007199254740846] by (simp add: power_int_minus)
  have zi: "fl ((- 6004799505956859 / 2 ^ 73) + (1 / 2 ^ 52)) = - 6004799503859707 / 2 ^ 73"
    using fl_eqI[of "- 21" "(- 6004799505956859 / 2 ^ 73) + (1 / 2 ^ 52)" "- 6004799503859707"] by (simp add: power_int_minus)
  show ?thesis by (rule cstep[OF p q r s u zr zi])
qed

lemma c94_step_17:
  "cadd (cmul (Complex (4503599627370423 / 2 ^ 51) (- 6004799503859707 / 2 ^ 73)) (Complex (4503599627370423 / 2 ^ 51) (- 6004799503859707 / 2 ^ 73))) (Complex (- 2) (1 / 2 ^ 52)) = Complex (2251799813684647 / 2 ^ 50) (- 3002399751667661 / 2 ^ 70)"
proof -
  have p: "fl ((4503599627370423 / 2 ^ 51) * (4503599627370423 / 2 ^ 51)) = 2251799813685175 / 2 ^ 49"
    using fl_eqI[of 1 "(4503599627370423 / 2 ^ 51) * (4503599627370423 / 2 ^ 51)" 9007199254740700] by (simp add: power_int_minus)
  have q: "fl ((- 6004799503859707 / 2 ^ 73) * (- 6004799503859707 / 2 ^ 73)) = 4003199669705835 / 2 ^ 93"
    using fl_eqI[of "- 42" "(- 6004799503859707 / 2 ^ 73) * (- 6004799503859707 / 2 ^ 73)" 8006399339411670] by (simp add: power_int_minus)
  have r: "fl ((2251799813685175 / 2 ^ 49) - (4003199669705835 / 2 ^ 93)) = 4503599627369895 / 2 ^ 50"
    using fl_eqI[of 1 "(2251799813685175 / 2 ^ 49) - (4003199669705835 / 2 ^ 93)" 9007199254739790] by (simp add: power_int_minus)
  have s: "fl ((4503599627370423 / 2 ^ 51) * (- 6004799503859707 / 2 ^ 73)) = - 3002399751929805 / 2 ^ 71"
    using fl_eqI[of "- 20" "(4503599627370423 / 2 ^ 51) * (- 6004799503859707 / 2 ^ 73)" "- 6004799503859610"] by (simp add: power_int_minus)
  have u: "fl ((- 3002399751929805 / 2 ^ 71) + (- 3002399751929805 / 2 ^ 71)) = - 3002399751929805 / 2 ^ 70"
    using fl_eqI[of "- 19" "(- 3002399751929805 / 2 ^ 71) + (- 3002399751929805 / 2 ^ 71)" "- 6004799503859610"] by (simp add: power_int_minus)
  have zr: "fl ((4503599627369895 / 2 ^ 50) + (- 2)) = 2251799813684647 / 2 ^ 50"
    using fl_eqI[of 0 "(4503599627369895 / 2 ^ 50) + (- 2)" 9007199254738588] by (simp add: power_int_minus)
  have zi: "fl ((- 3002399751929805 / 2 ^ 70) + (1 / 2 ^ 52)) = - 3002399751667661 / 2 ^ 70"
    using fl_eqI[of "- 19" "(- 3002399751929805 / 2 ^ 70) + (1 / 2 ^ 52)" "- 6004799503335322"] by (simp add: power_int_minus)
  show ?thesis by (rule cstep[OF p q r s u zr zi])
qed

lemma c94_step_18:
  "cadd (cmul (Complex (2251799813684647 / 2 ^ 50) (- 3002399751667661 / 2 ^ 70)) (Complex (2251799813684647 / 2 ^ 50) (- 3002399751667661 / 2 ^ 70))) (Complex (- 2) (1 / 2 ^ 52)) = Complex (1125899906837781 / 2 ^ 49) (- 6004799503202647 / 2 ^ 69)"
proof -
  have p: "fl ((2251799813684647 / 2 ^ 50) * (2251799813684647 / 2 ^ 50)) = 1125899906842023 / 2 ^ 48"
    using fl_eqI[of 1 "(2251799813684647 / 2 ^ 50) * (2251799813684647 / 2 ^ 50)" 9007199254736184] by (simp add: power_int_minus)
  have q: "fl ((- 3002399751667661 / 2 ^ 70) * (- 3002399751667661 / 2 ^ 70)) = 4003199669006655 / 2 ^ 89"
    using fl_eqI[of "- 38" "(- 3002399751667661 / 2 ^ 70) * (- 3002399751667661 / 2 ^ 70)" 8006399338013310] by (simp add: power_int_minus)
  have r: "fl ((1125899906842023 / 2 ^ 48) - (4003199669006655 / 2 ^ 89)) = 2251799813680405 / 2 ^ 49"
    using fl_eqI[of 1 "(1125899906842023 / 2 ^ 48) - (4003199669006655 / 2 ^ 89)" 9007199254721620] by (simp add: power_int_minus)
  have s: "fl ((2251799813684647 / 2 ^ 50) * (- 3002399751667661 / 2 ^ 70)) = - 6004799503333719 / 2 ^ 70"
    using fl_eqI[of "- 18" "(2251799813684647 / 2 ^ 50) * (- 3002399751667661 / 2 ^ 70)" "- 6004799503333719"] by (simp add: power_int_minus)
  have u: "fl ((- 6004799503333719 / 2 ^ 70) + (- 6004799503333719 / 2 ^ 70)) = - 6004799503333719 / 2 ^ 69"
    using fl_eqI[of "- 17" "(- 6004799503333719 / 2 ^ 70) + (- 6004799503333719 / 2 ^ 70)" "- 6004799503333719"] by (simp add: power_int_minus)
  have zr: "fl ((2251799813680405 / 2 ^ 49) + (- 2)) = 1125899906837781 / 2 ^ 49"
    using fl_eqI[of 0 "(2251799813680405 / 2 ^ 49) + (- 2)" 9007199254702248] by (simp add: power_int_minus)
  have zi: "fl ((- 6004799503333719 / 2 ^ 69) + (1 / 2 ^ 52)) = - 6004799503202647 / 2 ^ 69"
    using fl_eqI[of "- 17" "(- 6004799503333719 / 2 ^ 69) + (1 / 2 ^ 52)" "- 6004799503202647"] by (simp add: power_int_minus)
  show ?thesis by (rule cstep[OF p q r s u zr zi])
qed

lemma c94_step_19:
  "cadd (cmul (Complex (1125899906837781 / 2 ^ 49) (- 6004799503202647 / 2 ^ 69)) (Complex (1125899906837781 / 2 ^ 49) (- 6004799503202647 / 2 ^ 69))) (Complex (- 2) (1 / 2 ^ 52)) = Complex (4503599627059991 / 2 ^ 51) (- 3002399751572025 / 2 ^ 66)"
proof -
  have p: "fl ((1125899906837781 / 2 ^ 49) * (1125899906837781 / 2 ^ 49)) = 562949953416469 / 2 ^ 47"
    using fl_eqI[of 1 "(1125899906837781 / 2 ^ 49) * (1125899906837781 / 2 ^ 49)" 9007199254663504] by (simp add: power_int_minus)
  have q: "fl ((- 6004799503202647 / 2 ^ 69) * (- 6004799503202647 / 2 ^ 69)) = 4003199668829755 / 2 ^ 85"
    using fl_eqI[of "- 34" "(- 6004799503202647 / 2 ^ 69) * (- 6004799503202647 / 2 ^ 69)" 8006399337659510] by (simp add: power_int_minus)
  have r: "fl ((562949953416469 / 2 ^ 47) - (4003199668829755 / 2 ^ 85)) = 9007199254430487 / 2 ^ 51"
    using fl_eqI[of 1 "(562949953416469 / 2 ^ 47) - (4003199668829755 / 2 ^ 85)" 9007199254430487] by (simp add: power_int_minus)
  have s: "fl ((1125899906837781 / 2 ^ 49) * (- 6004799503202647 / 2 ^ 69)) = - 3002399751588409 / 2 ^ 67"
    using fl_eqI[of "- 16" "(1125899906837781 / 2 ^ 49) * (- 6004799503202647 / 2 ^ 69)" "- 6004799503176818"] by (simp add: power_int_minus)
  have u: "fl ((- 3002399751588409 / 2 ^ 67) + (- 3002399751588409 / 2 ^ 67)) = - 3002399751588409 / 2 ^ 66"
    using fl_eqI[of "- 15" "(- 3002399751588409 / 2 ^ 67) + (- 3002399751588409 / 2 ^ 67)" "- 6004799503176818"] by (simp add: power_int_minus)
  have zr: "fl ((9007199254430487 / 2 ^ 51) + (- 2)) = 4503599627059991 / 2 ^ 51"
    using fl_eqI[of 0 "(9007199254430487 / 2 ^ 51) + (- 2)" 9007199254119982] by (simp add: power_int_minus)
  have zi: "fl ((- 3002399751588409 / 2 ^ 66) + (1 / 2 ^ 52)) = - 3002399751572025 / 2 ^ 66"
    using fl_eqI[of "- 15" "(- 3002399751588409 / 2 ^ 66) + (1 / 2 ^ 52)" "- 6004799503144050"] by (simp add: power_int_minus)
  show ?thesis by (rule cstep[OF p q r s u zr zi])
qed

lemma c94_step_20:
  "cadd (cmul (Complex (4503599627059991 / 2 ^ 51) (- 3002399751572025 / 2 ^ 66)) (Complex (4503599627059991 / 2 ^ 51) (- 3002399751572025 / 2 ^ 66))) (Complex (- 2) (1 / 2 ^ 52)) = Complex (2251799811200103 / 2 ^ 50) (- 6004799502721851 / 2 ^ 65)"
proof -
  have p: "fl ((4503599627059991 / 2 ^ 51) * (4503599627059991 / 2 ^ 51)) = 2251799813374743 / 2 ^ 49"
    using fl_eqI[of 1 "(4503599627059991 / 2 ^ 51) * (4503599627059991 / 2 ^ 51)" 9007199253498972] by (simp add: power_int_minus)
  have q: "fl ((- 3002399751572025 / 2 ^ 66) * (- 3002399751572025 / 2 ^ 66)) = 2001599834375813 / 2 ^ 80"
    using fl_eqI[of "- 30" "(- 3002399751572025 / 2 ^ 66) * (- 3002399751572025 / 2 ^ 66)" 8006399337503252] by (simp add: power_int_minus)
  have r: "fl ((2251799813374743 / 2 ^ 49) - (2001599834375813 / 2 ^ 80)) = 4503599624885351 / 2 ^ 50"
    using fl_eqI[of 1 "(2251799813374743 / 2 ^ 49) - (2001599834375813 / 2 ^ 80)" 9007199249770702] by (simp add: power_int_minus)
  have s: "fl ((4503599627059991 / 2 ^ 51) * (- 3002399751572025 / 2 ^ 66)) = - 6004799502730043 / 2 ^ 66"
    using fl_eqI[of "- 14" "(4503599627059991 / 2 ^ 51) * (- 3002399751572025 / 2 ^ 66)" "- 6004799502730043"] by (simp add: power_int_minus)
  have u: "fl ((- 6004799502730043 / 2 ^ 66) + (- 6004799502730043 / 2 ^ 66)) = - 6004799502730043 / 2 ^ 65"
    using fl_eqI[of "- 13" "(- 6004799502730043 / 2 ^ 66) + (- 6004799502730043 / 2 ^ 66)" "- 6004799502730043"] by (simp add: power_int_minus)
  have zr: "fl ((4503599624885351 / 2 ^ 50) + (- 2)) = 2251799811200103 / 2 ^ 50"
    using fl_eqI[of 0 "(4503599624885351 / 2 ^ 50) + (- 2)" 9007199244800412] by (simp add: power_int_minus)
  have zi: "fl ((- 6004799502730043 / 2 ^ 65) + (1 / 2 ^ 52)) = - 6004799502721851 / 2 ^ 65"
    using fl_eqI[of "- 13" "(- 6004799502730043 / 2 ^ 65) + (1 / 2 ^ 52)" "- 6004799502721851"] by (simp add: power_int_minus)
  show ?thesis by (rule cstep[OF p q r s u zr zi])
qed

lemma c94_step_21:
  "cadd (cmul (Complex (2251799811200103 / 2 ^ 50) (- 6004799502721851 / 2 ^ 65)) (Complex (2251799811200103 / 2 ^ 50) (- 6004799502721851 / 2 ^ 65))) (Complex (- 2) (1 / 2 ^ 52)) = Complex (1125899886959253 / 2 ^ 49) (- 3002399748046375 / 2 ^ 62)"
proof -
  have p: "fl ((2251799811200103 / 2 ^ 50) * (2251799811200103 / 2 ^ 50)) = 1125899904357479 / 2 ^ 48"
    using fl_eqI[of 1 "(2251799811200103 / 2 ^ 50) * (2251799811200103 / 2 ^ 50)" 9007199234859832] by (simp add: power_int_minus)
  have q: "fl ((- 6004799502721851 / 2 ^ 65) * (- 6004799502721851 / 2 ^ 65)) = 2001599834094347 / 2 ^ 76"
    using fl_eqI[of "- 26" "(- 6004799502721851 / 2 ^ 65) * (- 6004799502721851 / 2 ^ 65)" 8006399336377388] by (simp add: power_int_minus)
  have r: "fl ((1125899904357479 / 2 ^ 48) - (2001599834094347 / 2 ^ 76)) = 2251799793801877 / 2 ^ 49"
    using fl_eqI[of 1 "(1125899904357479 / 2 ^ 48) - (2001599834094347 / 2 ^ 76)" 9007199175207508] by (simp add: power_int_minus)
  have s: "fl ((2251799811200103 / 2 ^ 50) * (- 6004799502721851 / 2 ^ 65)) = - 3002399748047399 / 2 ^ 63"
    using fl_eqI[of "- 12" "(2251799811200103 / 2 ^ 50) * (- 6004799502721851 / 2 ^ 65)" "- 6004799496094798"] by (simp add: power_int_minus)
  have u: "fl ((- 3002399748047399 / 2 ^ 63) + (- 3002399748047399 / 2 ^ 63)) = - 3002399748047399 / 2 ^ 62"
    using fl_eqI[of "- 11" "(- 3002399748047399 / 2 ^ 63) + (- 3002399748047399 / 2 ^ 63)" "- 6004799496094798"] by (simp add: power_int_minus)
  have zr: "fl ((2251799793801877 / 2 ^ 49) + (- 2)) = 1125899886959253 / 2 ^ 49"
    using fl_eqI[of 0 "(2251799793801877 / 2 ^ 49) + (- 2)" 9007199095674024] by (simp add: power_int_minus)
  have zi: "fl ((- 3002399748047399 / 2 ^ 62) + (1 / 2 ^ 52)) = - 3002399748046375 / 2 ^ 62"
    using fl_eqI[of "- 11" "(- 3002399748047399 / 2 ^ 62) + (1 / 2 ^ 52)" "- 6004799496092750"] by (simp add: power_int_minus)
  show ?thesis by (rule cstep[OF p q r s u zr zi])
qed

lemma c94_step_22:
  "cadd (cmul (Complex (1125899886959253 / 2 ^ 49) (- 3002399748046375 / 2 ^ 62)) (Complex (1125899886959253 / 2 ^ 49) (- 3002399748046375 / 2 ^ 62))) (Complex (- 2) (1 / 2 ^ 52)) = Complex (1125899588699847 / 2 ^ 49) (- 6004799390047593 / 2 ^ 61)"
proof -
  have p: "fl ((1125899886959253 / 2 ^ 49) * (1125899886959253 / 2 ^ 49)) = 9007198936607059 / 2 ^ 51"
    using fl_eqI[of 1 "(1125899886959253 / 2 ^ 49) * (1125899886959253 / 2 ^ 49)" 9007198936607059] by (simp add: power_int_minus)
  have q: "fl ((- 3002399748046375 / 2 ^ 62) * (- 3002399748046375 / 2 ^ 62)) = 8006399318699785 / 2 ^ 74"
    using fl_eqI[of "- 22" "(- 3002399748046375 / 2 ^ 62) * (- 3002399748046375 / 2 ^ 62)" 8006399318699785] by (simp add: power_int_minus)
  have r: "fl ((9007198936607059 / 2 ^ 51) - (8006399318699785 / 2 ^ 74)) = 2251799495542471 / 2 ^ 49"
    using fl_eqI[of 1 "(9007198936607059 / 2 ^ 51) - (8006399318699785 / 2 ^ 74)" 9007197982169884] by (simp add: power_int_minus)
  have s: "fl ((1125899886959253 / 2 ^ 49) * (- 3002399748046375 / 2 ^ 62)) = - 6004799390048105 / 2 ^ 62"
    using fl_eqI[of "- 10" "(1125899886959253 / 2 ^ 49) * (- 3002399748046375 / 2 ^ 62)" "- 6004799390048105"] by (simp add: power_int_minus)
  have u: "fl ((- 6004799390048105 / 2 ^ 62) + (- 6004799390048105 / 2 ^ 62)) = - 6004799390048105 / 2 ^ 61"
    using fl_eqI[of "- 9" "(- 6004799390048105 / 2 ^ 62) + (- 6004799390048105 / 2 ^ 62)" "- 6004799390048105"] by (simp add: power_int_minus)
  have zr: "fl ((2251799495542471 / 2 ^ 49) + (- 2)) = 1125899588699847 / 2 ^ 49"
    using fl_eqI[of 0 "(2251799495542471 / 2 ^ 49) + (- 2)" 9007196709598776] by (simp add: power_int_minus)
  have zi: "fl ((- 6004799390048105 / 2 ^ 61) + (1 / 2 ^ 52)) = - 6004799390047593 / 2 ^ 61"
    using fl_eqI[of "- 9" "(- 6004799390048105 / 2 ^ 61) + (1 / 2 ^ 52)" "- 6004799390047593"] by (simp add: power_int_minus)
  show ?thesis by (rule cstep[OF p q r s u zr zi])
qed

lemma c94_step_23:
  "cadd (cmul (Complex (1125899588699847 / 2 ^ 49) (- 6004799390047593 / 2 ^ 61)) (Complex (1125899588699847 / 2 ^ 49) (- 6004799390047593 / 2 ^ 61))) (Complex (- 2) (1 / 2 ^ 52)) = Complex (281473704130783 / 2 ^ 47) (- 1501199423321505 / 2 ^ 57)"
proof -
  have p: "fl ((1125899588699847 / 2 ^ 49) * (1125899588699847 / 2 ^ 49)) = 9007194164457279 / 2 ^ 51"
    using fl_eqI[of 1 "(1125899588699847 / 2 ^ 49) * (1125899588699847 / 2 ^ 49)" 9007194164457279] by (simp add: power_int_minus)
  have q: "fl ((- 6004799390047593 / 2 ^ 61) * (- 6004799390047593 / 2 ^ 61)) = 4003199517956351 / 2 ^ 69"
    using fl_eqI[of "- 18" "(- 6004799390047593 / 2 ^ 61) * (- 6004799390047593 / 2 ^ 61)" 8006399035912702] by (simp add: power_int_minus)
  have r: "fl ((9007194164457279 / 2 ^ 51) - (4003199517956351 / 2 ^ 69)) = 562948680841439 / 2 ^ 47"
    using fl_eqI[of 1 "(9007194164457279 / 2 ^ 51) - (4003199517956351 / 2 ^ 69)" 9007178893463024] by (simp add: power_int_minus)
  have s: "fl ((1125899588699847 / 2 ^ 49) * (- 6004799390047593 / 2 ^ 61)) = - 1501199423321537 / 2 ^ 58"
    using fl_eqI[of "- 8" "(1125899588699847 / 2 ^ 49) * (- 6004799390047593 / 2 ^ 61)" "- 6004797693286148"] by (simp add: power_int_minus)
  have u: "fl ((- 1501199423321537 / 2 ^ 58) + (- 1501199423321537 / 2 ^ 58)) = - 1501199423321537 / 2 ^ 57"
    using fl_eqI[of "- 7" "(- 1501199423321537 / 2 ^ 58) + (- 1501199423321537 / 2 ^ 58)" "- 6004797693286148"] by (simp add: power_int_minus)
  have zr: "fl ((562948680841439 / 2 ^ 47) + (- 2)) = 281473704130783 / 2 ^ 47"
    using fl_eqI[of 0 "(562948680841439 / 2 ^ 47) + (- 2)" 9007158532185056] by (simp add: power_int_minus)
  have zi: "fl ((- 1501199423321537 / 2 ^ 57) + (1 / 2 ^ 52)) = - 1501199423321505 / 2 ^ 57"
    using fl_eqI[of "- 7" "(- 1501199423321537 / 2 ^ 57) + (1 / 2 ^ 52)" "- 6004797693286020"] by (simp add: power_int_minus)
  show ?thesis by (rule cstep[OF p q r s u zr zi])
qed

lemma c94_step_24:
  "cadd (cmul (Complex (281473704130783 / 2 ^ 47) (- 1501199423321505 / 2 ^ 57)) (Complex (281473704130783 / 2 ^ 47) (- 1501199423321505 / 2 ^ 57))) (Complex (- 2) (1 / 2 ^ 52)) = Complex (4503273846672739 / 2 ^ 51) (- 6004770544923547 / 2 ^ 57)"
proof -
  have p: "fl ((281473704130783 / 2 ^ 47) * (281473704130783 / 2 ^ 47)) = 9007117809813231 / 2 ^ 51"
    using fl_eqI[of 1 "(281473704130783 / 2 ^ 47) * (281473704130783 / 2 ^ 47)" 9007117809813231] by (simp add: power_int_minus)
  have q: "fl ((- 1501199423321505 / 2 ^ 57) * (- 1501199423321505 / 2 ^ 57)) = 8006394511215899 / 2 ^ 66"
    using fl_eqI[of "- 14" "(- 1501199423321505 / 2 ^ 57) * (- 1501199423321505 / 2 ^ 57)" 8006394511215899] by (simp add: power_int_minus)
  have r: "fl ((9007117809813231 / 2 ^ 51) - (8006394511215899 / 2 ^ 66)) = 9006873474043235 / 2 ^ 51"
    using fl_eqI[of 1 "(9007117809813231 / 2 ^ 51) - (8006394511215899 / 2 ^ 66)" 9006873474043235] by (simp add: power_int_minus)
  have s: "fl ((281473704130783 / 2 ^ 47) * (- 1501199423321505 / 2 ^ 57)) = - 6004770544923579 / 2 ^ 58"
    using fl_eqI[of "- 6" "(281473704130783 / 2 ^ 47) * (- 1501199423321505 / 2 ^ 57)" "- 6004770544923579"] by (simp add: power_int_minus)
  have u: "fl ((- 6004770544923579 / 2 ^ 58) + (- 6004770544923579 / 2 ^ 58)) = - 6004770544923579 / 2 ^ 57"
    using fl_eqI[of "- 5" "(- 6004770544923579 / 2 ^ 58) + (- 6004770544923579 / 2 ^ 58)" "- 6004770544923579"] by (simp add: power_int_minus)
  have zr: "fl ((9006873474043235 / 2 ^ 51) + (- 2)) = 4503273846672739 / 2 ^ 51"
    using fl_eqI[of 0 "(9006873474043235 / 2 ^ 51) + (- 2)" 9006547693345478] by (simp add: power_int_minus)
  have zi: "fl ((- 6004770544923579 / 2 ^ 57) + (1 / 2 ^ 52)) = - 6004770544923547 / 2 ^ 57"
    using fl_eqI[of "- 5" "(- 6004770544923579 / 2 ^ 57) + (1 / 2 ^ 52)" "- 6004770544923547"] by (simp add: power_int_minus)
  show ?thesis by (rule cstep[OF p q r s u zr zi])
qed

lemma c94_step_25:
  "cadd (cmul (Complex (4503273846672739 / 2 ^ 51) (- 6004770544923547 / 2 ^ 57)) (Complex (4503273846672739 / 2 ^ 51) (- 6004770544923547 / 2 ^ 57))) (Complex (- 2) (1 / 2 ^ 52)) = Complex (2249193607370713 / 2 ^ 50) (- 375271010797165 / 2 ^ 51)"
proof -
  have p: "fl ((4503273846672739 / 2 ^ 51) * (4503273846672739 / 2 ^ 51)) = 562868511192657 / 2 ^ 47"
    using fl_eqI[of 1 "(4503273846672739 / 2 ^ 51) * (4503273846672739 / 2 ^ 51)" 9005896179082512] by (simp add: power_int_minus)
  have q: "fl ((- 6004770544923547 / 2 ^ 57) * (- 6004770544923547 / 2 ^ 57)) = 500395132235507 / 2 ^ 58"
    using fl_eqI[of "- 10" "(- 6004770544923547 / 2 ^ 57) * (- 6004770544923547 / 2 ^ 57)" 8006322115768112] by (simp add: power_int_minus)
  have r: "fl ((562868511192657 / 2 ^ 47) - (500395132235507 / 2 ^ 58)) = 4500993421055961 / 2 ^ 50"
    using fl_eqI[of 1 "(562868511192657 / 2 ^ 47) - (500395132235507 / 2 ^ 58)" 9001986842111922] by (simp add: power_int_minus)
  have s: "fl ((4503273846672739 / 2 ^ 51) * (- 6004770544923547 / 2 ^ 57)) = - 750542021594331 / 2 ^ 53"
    using fl_eqI[of "- 4" "(4503273846672739 / 2 ^ 51) * (- 6004770544923547 / 2 ^ 57)" "- 6004336172754648"] by (simp add: power_int_minus)
  have u: "fl ((- 750542021594331 / 2 ^ 53) + (- 750542021594331 / 2 ^ 53)) = - 750542021594331 / 2 ^ 52"
    using fl_eqI[of "- 3" "(- 750542021594331 / 2 ^ 53) + (- 750542021594331 / 2 ^ 53)" "- 6004336172754648"] by (simp add: power_int_minus)
  have zr: "fl ((4500993421055961 / 2 ^ 50) + (- 2)) = 2249193607370713 / 2 ^ 50"
    using fl_eqI[of 0 "(4500993421055961 / 2 ^ 50) + (- 2)" 8996774429482852] by (simp add: power_int_minus)
  have zi: "fl ((- 750542021594331 / 2 ^ 52) + (1 / 2 ^ 52)) = - 375271010797165 / 2 ^ 51"
    using fl_eqI[of "- 3" "(- 750542021594331 / 2 ^ 52) + (1 / 2 ^ 52)" "- 6004336172754640"] by (simp add: power_int_minus)
  show ?thesis by (rule cstep[OF p q r s u zr zi])
qed

lemma c94_step_26:
  "cadd (cmul (Complex (2249193607370713 / 2 ^ 50) (- 375271010797165 / 2 ^ 51)) (Complex (2249193607370713 / 2 ^ 50) (- 375271010797165 / 2 ^ 51))) (Complex (- 2) (1 / 2 ^ 52)) = Complex (4420221699942745 / 2 ^ 51) (- 5997386825502311 / 2 ^ 53)"
proof -
  have p: "fl ((2249193607370713 / 2 ^ 50) * (2249193607370713 / 2 ^ 50)) = 8986361669793441 / 2 ^ 51"
    using fl_eqI[of 1 "(2249193607370713 / 2 ^ 50) * (2249193607370713 / 2 ^ 50)" 8986361669793441] by (simp add: power_int_minus)
  have q: "fl ((- 375271010797165 / 2 ^ 51) * (- 375271010797165 / 2 ^ 51)) = 4002581918732799 / 2 ^ 57"
    using fl_eqI[of "- 6" "(- 375271010797165 / 2 ^ 51) * (- 375271010797165 / 2 ^ 51)" 8005163837465598] by (simp add: power_int_minus)
  have r: "fl ((8986361669793441 / 2 ^ 51) - (4002581918732799 / 2 ^ 57)) = 8923821327313241 / 2 ^ 51"
    using fl_eqI[of 1 "(8986361669793441 / 2 ^ 51) - (4002581918732799 / 2 ^ 57)" 8923821327313241] by (simp add: power_int_minus)
  have s: "fl ((2249193607370713 / 2 ^ 50) * (- 375271010797165 / 2 ^ 51)) = - 5997386825502313 / 2 ^ 54"
    using fl_eqI[of "- 2" "(2249193607370713 / 2 ^ 50) * (- 375271010797165 / 2 ^ 51)" "- 5997386825502313"] by (simp add: power_int_minus)
  have u: "fl ((- 5997386825502313 / 2 ^ 54) + (- 5997386825502313 / 2 ^ 54)) = - 5997386825502313 / 2 ^ 53"
    using fl_eqI[of "- 1" "(- 5997386825502313 / 2 ^ 54) + (- 5997386825502313 / 2 ^ 54)" "- 5997386825502313"] by (simp add: power_int_minus)
  have zr: "fl ((8923821327313241 / 2 ^ 51) + (- 2)) = 4420221699942745 / 2 ^ 51"
    using fl_eqI[of 0 "(8923821327313241 / 2 ^ 51) + (- 2)" 8840443399885490] by (simp add: power_int_minus)
  have zi: "fl ((- 5997386825502313 / 2 ^ 53) + (1 / 2 ^ 52)) = - 5997386825502311 / 2 ^ 53"
    using fl_eqI[of "- 1" "(- 5997386825502313 / 2 ^ 53) + (1 / 2 ^ 52)" "- 5997386825502311"] by (simp add: power_int_minus)
  show ?thesis by (rule cstep[OF p q r s u zr zi])
qed

lemma c94_step_27:
  "cadd (cmul (Complex (4420221699942745 / 2 ^ 51) (- 5997386825502311 / 2 ^ 53)) (Complex (4420221699942745 / 2 ^ 51) (- 5997386825502311 / 2 ^ 53))) (Complex (- 2) (1 / 2 ^ 52)) = Complex (3174844622266627 / 2 ^ 51) (- 2943176745544123 / 2 ^ 50)"
proof -
  have p: "fl ((4420221699942745 / 2 ^ 51) * (4420221699942745 / 2 ^ 51)) = 8676774799385325 / 2 ^ 51"
    using fl_eqI[of 1 "(4420221699942745 / 2 ^ 51) * (4420221699942745 / 2 ^ 51)" 8676774799385325] by (simp add: power_int_minus)
  have q: "fl ((- 5997386825502311 / 2 ^ 53) * (- 5997386825502311 / 2 ^ 53)) = 3993322198992809 / 2 ^ 53"
    using fl_eqI[of "- 2" "(- 5997386825502311 / 2 ^ 53) * (- 5997386825502311 / 2 ^ 53)" 7986644397985618] by (simp add: power_int_minus)
  have r: "fl ((8676774799385325 / 2 ^ 51) - (3993322198992809 / 2 ^ 53)) = 7678444249637123 / 2 ^ 51"
    using fl_eqI[of 1 "(8676774799385325 / 2 ^ 51) - (3993322198992809 / 2 ^ 53)" 7678444249637123] by (simp add: power_int_minus)
  have s: "fl ((4420221699942745 / 2 ^ 51) * (- 5997386825502311 / 2 ^ 53)) = - 5886353491088247 / 2 ^ 52"
    using fl_eqI[of 0 "(4420221699942745 / 2 ^ 51) * (- 5997386825502311 / 2 ^ 53)" "- 5886353491088247"] by (simp add: power_int_minus)
  have u: "fl ((- 5886353491088247 / 2 ^ 52) + (- 5886353491088247 / 2 ^ 52)) = - 5886353491088247 / 2 ^ 51"
    using fl_eqI[of 1 "(- 5886353491088247 / 2 ^ 52) + (- 5886353491088247 / 2 ^ 52)" "- 5886353491088247"] by (simp add: power_int_minus)
  have zr: "fl ((7678444249637123 / 2 ^ 51) + (- 2)) = 3174844622266627 / 2 ^ 51"
    using fl_eqI[of 0 "(7678444249637123 / 2 ^ 51) + (- 2)" 6349689244533254] by (simp add: power_int_minus)
  have zi: "fl ((- 5886353491088247 / 2 ^ 51) + (1 / 2 ^ 52)) = - 2943176745544123 / 2 ^ 50"
    using fl_tieI[of 1 "(- 5886353491088247 / 2 ^ 51) + (1 / 2 ^ 52)" "- 5886353491088246"] by (simp add: power_int_minus)
  show ?thesis by (rule cstep[OF p q r s u zr zi])
qed

lemma c94_step_28:
  "cadd (cmul (Complex (3174844622266627 / 2 ^ 51) (- 2943176745544123 / 2 ^ 50)) (Complex (3174844622266627 / 2 ^ 51) (- 2943176745544123 / 2 ^ 50))) (Complex (- 2) (1 / 2 ^ 52)) = Complex (- 7707328963565917 / 2 ^ 50) (- 2074813401746967 / 2 ^ 48)"
proof -
  have p: "fl ((3174844622266627 / 2 ^ 51) * (3174844622266627 / 2 ^ 51)) = 8952517283531699 / 2 ^ 52"
    using fl_eqI[of 0 "(3174844622266627 / 2 ^ 51) * (3174844622266627 / 2 ^ 51)" 8952517283531699] by (simp add: power_int_minus)
  have q: "fl ((- 2943176745544123 / 2 ^ 50) * (- 2943176745544123 / 2 ^ 50)) = 3846829235381797 / 2 ^ 49"
    using fl_eqI[of 2 "(- 2943176745544123 / 2 ^ 50) * (- 2943176745544123 / 2 ^ 50)" 7693658470763594] by (simp add: power_int_minus)
  have r: "fl ((8952517283531699 / 2 ^ 52) - (3846829235381797 / 2 ^ 49)) = - 5455529149880669 / 2 ^ 50"
    using fl_eqI[of 2 "(8952517283531699 / 2 ^ 52) - (3846829235381797 / 2 ^ 49)" "- 5455529149880669"] by (simp add: power_int_minus)
  have s: "fl ((3174844622266627 / 2 ^ 51) * (- 2943176745544123 / 2 ^ 50)) = - 2074813401746967 / 2 ^ 49"
    using fl_eqI[of 1 "(3174844622266627 / 2 ^ 51) * (- 2943176745544123 / 2 ^ 50)" "- 8299253606987868"] by (simp add: power_int_minus)
  have u: "fl ((- 2074813401746967 / 2 ^ 49) + (- 2074813401746967 / 2 ^ 49)) = - 2074813401746967 / 2 ^ 48"
    using fl_eqI[of 2 "(- 2074813401746967 / 2 ^ 49) + (- 2074813401746967 / 2 ^ 49)" "- 8299253606987868"] by (simp add: power_int_minus)
  have zr: "fl ((- 5455529149880669 / 2 ^ 50) + (- 2)) = - 7707328963565917 / 2 ^ 50"
    using fl_eqI[of 2 "(- 5455529149880669 / 2 ^ 50) + (- 2)" "- 7707328963565917"] by (simp add: power_int_minus)
  have zi: "fl ((- 2074813401746967 / 2 ^ 48) + (1 / 2 ^ 52)) = - 2074813401746967 / 2 ^ 48"
    using fl_eqI[of 2 "(- 2074813401746967 / 2 ^ 48) + (1 / 2 ^ 52)" "- 8299253606987868"] by (simp add: power_int_minus)
  show ?thesis by (rule cstep[OF p q r s u zr zi])
qed

lemma c94_orbit_1: "orbit (Complex (- 2) (1 / 2 ^ 52)) 1 = Complex (- 2) (1 / 2 ^ 52)"
proof -
  have a: "fl ((- 2)) = - 2"
    using fl_eqI[of 1 "(- 2)" "- 4503599627370496"] by (simp add: power_int_minus)
  have b: "fl ((1 / 2 ^ 52)) = 1 / 2 ^ 52"
    using fl_eqI[of "- 52" "(1 / 2 ^ 52)" 4503599627370496] by (simp add: power_int_minus)
  have "orbit (Complex (- 2) (1 / 2 ^ 52)) (Suc 0) = Complex (- 2) (1 / 2 ^ 52)"
    unfolding orbit_1 by (simp only: complex.sel a b)
  then show ?thesis by simp
qed

lemma c94_orbit_2: "orbit (Complex (- 2) (1 / 2 ^ 52)) 2 = Complex 2 (- 3 / 2 ^ 52)"
  by (rule orbit_next[OF c94_orbit_1 c94_step_1]) simp

lemma c94_orbit_3: "orbit (Complex (- 2) (1 / 2 ^ 52)) 3 = Complex 2 (- 11 / 2 ^ 52)"
  by (rule orbit_next[OF c94_orbit_2 c94_step_2]) simp

lemma c94_orbit_4: "orbit (Complex (- 2) (1 / 2 ^ 52)) 4 = Complex 2 (- 43 / 2 ^ 52)"
  by (rule orbit_next[OF c94_orbit_3 c94_step_3]) simp

lemma c94_orbit_5: "orbit (Complex (- 2) (1 / 2 ^ 52)) 5 = Complex 2 (- 171 / 2 ^ 52)"
  by (rule orbit_next[OF c94_orbit_4 c94_step_4]) simp

lemma c94_orbit_6: "orbit (Complex (- 2) (1 / 2 ^ 52)) 6 = Complex 2 (- 683 / 2 ^ 52)"
  by (rule orbit_next[OF c94_orbit_5 c94_step_5]) simp

lemma c94_orbit_7: "orbit (Complex (- 2) (1 / 2 ^ 52)) 7 = Complex 2 (- 2731 / 2 ^ 52)"
  by (rule orbit_next[OF c94_orbit_6 c94_step_6]) simp

lemma c94_orbit_8: "orbit (Complex (- 2) (1 / 2 ^ 52)) 8 = Complex 2 (- 10923 / 2 ^ 52)"
  by (rule orbit_next[OF c94_orbit_7 c94_step_7]) simp

lemma c94_orbit_9: "orbit (Complex (- 2) (1 / 2 ^ 52)) 9 = Complex 2 (- 43691 / 2 ^ 52)"
  by (rule orbit_next[OF c94_orbit_8 c94_step_8]) simp

lemma c94_orbit_10: "orbit (Complex (- 2) (1 / 2 ^ 52)) 10 = Complex 2 (- 174763 / 2 ^ 52)"
  by (rule orbit_next[OF c94_orbit_9 c94_step_9]) simp

lemma c94_orbit_11: "orbit (Complex (- 2) (1 / 2 ^ 52)) 11 = Complex 2 (- 699051 / 2 ^ 52)"
  by (rule orbit_next[OF c94_orbit_10 c94_step_10]) simp

lemma c94_orbit_12: "orbit (Complex (- 2) (1 / 2 ^ 52)) 12 = Complex 2 (- 2796203 / 2 ^ 52)"
  by (rule orbit_next[OF c94_orbit_11 c94_step_11]) simp

lemma c94_orbit_13: "orbit (Complex (- 2) (1 / 2 ^ 52)) 13 = Complex 2 (- 11184811 / 2 ^ 52)"
  by (rule orbit_next[OF c94_orbit_12 c94_step_12]) simp

lemma c94_orbit_14: "orbit (Complex (- 2) (1 / 2 ^ 52)) 14 = Complex 2 (- 44739243 / 2 ^ 52)"
  by (rule orbit_next[OF c94_orbit_13 c94_step_13]) simp

lemma c94_orbit_15: "orbit (Complex (- 2) (1 / 2 ^ 52)) 15 = Complex 2 (- 178956971 / 2 ^ 52)"
  by (rule orbit_next[OF c94_orbit_14 c94_step_14]) simp

lemma c94_orbit_16: "orbit (Complex (- 2) (1 / 2 ^ 52)) 16 = Complex (1125899906842623 / 2 ^ 49) (- 715827883 / 2 ^ 52)"
  by (rule orbit_next[OF c94_orbit_15 c94_step_15]) simp

lemma c94_orbit_17: "orbit (Complex (- 2) (1 / 2 ^ 52)) 17 = Complex (4503599627370423 / 2 ^ 51) (- 6004799503859707 / 2 ^ 73)"
  by (rule orbit_next[OF c94_orbit_16 c94_step_16]) simp

lemma c94_orbit_18: "orbit (Complex (- 2) (1 / 2 ^ 52)) 18 = Complex (2251799813684647 / 2 ^ 50) (- 3002399751667661 / 2 ^ 70)"
  by (rule orbit_next[OF c94_orbit_17 c94_step_17]) simp

lemma c94_orbit_19: "orbit (Complex (- 2) (1 / 2 ^ 52)) 19 = Complex (1125899906837781 / 2 ^ 49) (- 6004799503202647 / 2 ^ 69)"
  by (rule orbit_next[OF c94_orbit_18 c94_step_18]) simp

lemma c94_orbit_20: "orbit (Complex (- 2) (1 / 2 ^ 52)) 20 = Complex (4503599627059991 / 2 ^ 51) (- 3002399751572025 / 2 ^ 66)"
  by (rule orbit_next[OF c94_orbit_19 c94_step_19]) simp

lemma c94_orbit_21: "orbit (Complex (- 2) (1 / 2 ^ 52)) 21 = Complex (2251799811200103 / 2 ^ 50) (- 6004799502721851 / 2 ^ 65)"
  by (rule orbit_next[OF c94_orbit_20 c94_step_20]) simp

lemma c94_orbit_22: "orbit (Complex (- 2) (1 / 2 ^ 52)) 22 = Complex (1125899886959253 / 2 ^ 49) (- 3002399748046375 / 2 ^ 62)"
  by (rule orbit_next[OF c94_orbit_21 c94_step_21]) simp

lemma c94_orbit_23: "orbit (Complex (- 2) (1 / 2 ^ 52)) 23 = Complex (1125899588699847 / 2 ^ 49) (- 6004799390047593 / 2 ^ 61)"
  by (rule orbit_next[OF c94_orbit_22 c94_step_22]) simp

lemma c94_orbit_24: "orbit (Complex (- 2) (1 / 2 ^ 52)) 24 = Complex (281473704130783 / 2 ^ 47) (- 1501199423321505 / 2 ^ 57)"
  by (rule orbit_next[OF c94_orbit_23 c94_step_23]) simp

lemma c94_orbit_25: "orbit (Complex (- 2) (1 / 2 ^ 52)) 25 = Complex (4503273846672739 / 2 ^ 51) (- 6004770544923547 / 2 ^ 57)"
  by (rule orbit_next[OF c94_orbit_24 c94_step_24]) simp

lemma c94_orbit_26: "orbit (Complex (- 2) (1 / 2 ^ 52)) 26 = Complex (2249193607370713 / 2 ^ 50) (- 375271010797165 / 2 ^ 51)"
  by (rule orbit_next[OF c94_orbit_25 c94_step_25]) simp

lemma c94_orbit_27: "orbit (Complex (- 2) (1 / 2 ^ 52)) 27 = Complex (4420221699942745 / 2 ^ 51) (- 5997386825502311 / 2 ^ 53)"
  by (rule orbit_next[OF c94_orbit_26 c94_step_26]) simp

lemma c94_orbit_28: "orbit (Complex (- 2) (1 / 2 ^ 52)) 28 = Complex (3174844622266627 / 2 ^ 51) (- 2943176745544123 / 2 ^ 50)"
  by (rule orbit_next[OF c94_orbit_27 c94_step_27]) simp

lemma c94_orbit_29: "orbit (Complex (- 2) (1 / 2 ^ 52)) 29 = Complex (- 7707328963565917 / 2 ^ 50) (- 2074813401746967 / 2 ^ 48)"
  by (rule orbit_next[OF c94_orbit_28 c94_step_28]) simp
lemma c94_cell: "cell_c 94 47 0 = Complex (- 2) (1 / 2 ^ 52)"
proof -
  have f: "fl (real_of_int 94) = 94"
    using fl_eqI[of 6 "real_of_int 94" 6614661952700416] by (simp add: power_int_minus)
  have a: "fl (3 / 94) = 4599420896037953 / 2 ^ 57"
    using fl_eqI[of "- 5" "3 / 94" 4599420896037953] by (simp add: power_int_minus)
  have j: "fl (real 0) = 0" by simp
  have b: "fl ((4599420896037953 / 2 ^ 57) * 0) = 0" by simp
  have re: "fl (- 2 + 0) = - 2"
    using fl_eqI[of 1 "- 2 + 0" "- 4503599627370496"] by (simp add: power_int_minus)
  have i: "fl (real 47) = 47"
    using fl_eqI[of 5 "real 47" 6614661952700416] by (simp add: power_int_minus)
  have d: "fl ((4599420896037953 / 2 ^ 57) * 47) = 6755399441055743 / 2 ^ 52"
    using fl_eqI[of 0 "(4599420896037953 / 2 ^ 57) * 47" 6755399441055743] by (simp add: power_int_minus)
  have im: "fl (3 / 2 - (6755399441055743 / 2 ^ 52)) = 1 / 2 ^ 52"
    using fl_eqI[of "- 52" "3 / 2 - (6755399441055743 / 2 ^ 52)" 4503599627370496] by (simp add: power_int_minus)
  show ?thesis by (rule cell_cI[OF f a j b re i d im])
qed

lemma c94_inside: "last_inside python_test (Complex (- 2) (1 / 2 ^ 52)) 100 28"
proof -
  have i0: "\<forall>t\<in>{0..0}. python_test (orbit (Complex (- 2) (1 / 2 ^ 52)) t)" by (simp add: python_test_zero)
  have "python_test (orbit (Complex (- 2) (1 / 2 ^ 52)) 1)"
    unfolding c94_orbit_1 by (rule python_test_leI) (simp add: power2_eq_square)
  then have i1: "\<forall>t\<in>{0..1}. python_test (orbit (Complex (- 2) (1 / 2 ^ 52)) t)" by (rule ball_step[OF i0]) simp
  have "python_test (orbit (Complex (- 2) (1 / 2 ^ 52)) 2)"
    unfolding c94_orbit_2 by (rule python_test_leI) (simp add: power2_eq_square)
  then have i2: "\<forall>t\<in>{0..2}. python_test (orbit (Complex (- 2) (1 / 2 ^ 52)) t)" by (rule ball_step[OF i1]) simp
  have "python_test (orbit (Complex (- 2) (1 / 2 ^ 52)) 3)"
    unfolding c94_orbit_3 by (rule python_test_leI) (simp add: power2_eq_square)
  then have i3: "\<forall>t\<in>{0..3}. python_test (orbit (Complex (- 2) (1 / 2 ^ 52)) t)" by (rule ball_step[OF i2]) simp
  have "python_test (orbit (Complex (- 2) (1 / 2 ^ 52)) 4)"
    unfolding c94_orbit_4 by (rule python_test_leI) (simp add: power2_eq_square)
  then have i4: "\<forall>t\<in>{0..4}. python_test (orbit (Complex (- 2) (1 / 2 ^ 52)) t)" by (rule ball_step[OF i3]) simp
  have "python_test (orbit (Complex (- 2) (1 / 2 ^ 52)) 5)"
    unfolding c94_orbit_5 by (rule python_test_leI) (simp add: power2_eq_square)
  then have i5: "\<forall>t\<in>{0..5}. python_test (orbit (Complex (- 2) (1 / 2 ^ 52)) t)" by (rule ball_step[OF i4]) simp
  have "python_test (orbit (Complex (- 2) (1 / 2 ^ 52)) 6)"
    unfolding c94_orbit_6 by (rule python_test_leI) (simp add: power2_eq_square)
  then have i6: "\<forall>t\<in>{0..6}. python_test (orbit (Complex (- 2) (1 / 2 ^ 52)) t)" by (rule ball_step[OF i5]) simp
  have "python_test (orbit (Complex (- 2) (1 / 2 ^ 52)) 7)"
    unfolding c94_orbit_7 by (rule python_test_leI) (simp add: power2_eq_square)
  then have i7: "\<forall>t\<in>{0..7}. python_test (orbit (Complex (- 2) (1 / 2 ^ 52)) t)" by (rule ball_step[OF i6]) simp
  have "python_test (orbit (Complex (- 2) (1 / 2 ^ 52)) 8)"
    unfolding c94_orbit_8 by (rule python_test_leI) (simp add: power2_eq_square)
  then have i8: "\<forall>t\<in>{0..8}. python_test (orbit (Complex (- 2) (1 / 2 ^ 52)) t)" by (rule ball_step[OF i7]) simp
  have "python_test (orbit (Complex (- 2) (1 / 2 ^ 52)) 9)"
    unfolding c94_orbit_9 by (rule python_test_leI) (simp add: power2_eq_square)
  then have i9: "\<forall>t\<in>{0..9}. python_test (orbit (Complex (- 2) (1 / 2 ^ 52)) t)" by (rule ball_step[OF i8]) simp
  have "python_test (orbit (Complex (- 2) (1 / 2 ^ 52)) 10)"
    unfolding c94_orbit_10 by (rule python_test_leI) (simp add: power2_eq_square)
  then have i10: "\<forall>t\<in>{0..10}. python_test (orbit (Complex (- 2) (1 / 2 ^ 52)) t)" by (rule ball_step[OF i9]) simp
  have "python_test (orbit (Complex (- 2) (1 / 2 ^ 52)) 11)"
    unfolding c94_orbit_11 by (rule python_test_leI) (simp add: power2_eq_square)
  then have i11: "\<forall>t\<in>{0..11}. python_test (orbit (Complex (- 2) (1 / 2 ^ 52)) t)" by (rule ball_step[OF i10]) simp
  have "python_test (orbit (Complex (- 2) (1 / 2 ^ 52)) 12)"
    unfolding c94_orbit_12 by (rule python_test_leI) (simp add: power2_eq_square)
  then have i12: "\<forall>t\<in>{0..12}. python_test (orbit (Complex (- 2) (1 / 2 ^ 52)) t)" by (rule ball_step[OF i11]) simp
  have "python_test (orbit (Complex (- 2) (1 / 2 ^ 52)) 13)"
    unfolding c94_orbit_13 by (rule python_test_leI) (simp add: power2_eq_square)
  then have i13: "\<forall>t\<in>{0..13}. python_test (orbit (Complex (- 2) (1 / 2 ^ 52)) t)" by (rule ball_step[OF i12]) simp
  have "python_test (orbit (Complex (- 2) (1 / 2 ^ 52)) 14)"
    unfolding c94_orbit_14 by (rule python_test_leI) (simp add: power2_eq_square)
  then have i14: "\<forall>t\<in>{0..14}. python_test (orbit (Complex (- 2) (1 / 2 ^ 52)) t)" by (rule ball_step[OF i13]) simp
  have "python_test (orbit (Complex (- 2) (1 / 2 ^ 52)) 15)"
    unfolding c94_orbit_15 by (rule python_test_leI) (simp add: power2_eq_square)
  then have i15: "\<forall>t\<in>{0..15}. python_test (orbit (Complex (- 2) (1 / 2 ^ 52)) t)" by (rule ball_step[OF i14]) simp
  have "python_test (orbit (Complex (- 2) (1 / 2 ^ 52)) 16)"
    unfolding c94_orbit_16 by (rule python_test_leI) (simp add: power2_eq_square)
  then have i16: "\<forall>t\<in>{0..16}. python_test (orbit (Complex (- 2) (1 / 2 ^ 52)) t)" by (rule ball_step[OF i15]) simp
  have "python_test (orbit (Complex (- 2) (1 / 2 ^ 52)) 17)"
    unfolding c94_orbit_17 by (rule python_test_leI) (simp add: power2_eq_square)
  then have i17: "\<forall>t\<in>{0..17}. python_test (orbit (Complex (- 2) (1 / 2 ^ 52)) t)" by (rule ball_step[OF i16]) simp
  have "python_test (orbit (Complex (- 2) (1 / 2 ^ 52)) 18)"
    unfolding c94_orbit_18 by (rule python_test_leI) (simp add: power2_eq_square)
  then have i18: "\<forall>t\<in>{0..18}. python_test (orbit (Complex (- 2) (1 / 2 ^ 52)) t)" by (rule ball_step[OF i17]) simp
  have "python_test (orbit (Complex (- 2) (1 / 2 ^ 52)) 19)"
    unfolding c94_orbit_19 by (rule python_test_leI) (simp add: power2_eq_square)
  then have i19: "\<forall>t\<in>{0..19}. python_test (orbit (Complex (- 2) (1 / 2 ^ 52)) t)" by (rule ball_step[OF i18]) simp
  have "python_test (orbit (Complex (- 2) (1 / 2 ^ 52)) 20)"
    unfolding c94_orbit_20 by (rule python_test_leI) (simp add: power2_eq_square)
  then have i20: "\<forall>t\<in>{0..20}. python_test (orbit (Complex (- 2) (1 / 2 ^ 52)) t)" by (rule ball_step[OF i19]) simp
  have "python_test (orbit (Complex (- 2) (1 / 2 ^ 52)) 21)"
    unfolding c94_orbit_21 by (rule python_test_leI) (simp add: power2_eq_square)
  then have i21: "\<forall>t\<in>{0..21}. python_test (orbit (Complex (- 2) (1 / 2 ^ 52)) t)" by (rule ball_step[OF i20]) simp
  have "python_test (orbit (Complex (- 2) (1 / 2 ^ 52)) 22)"
    unfolding c94_orbit_22 by (rule python_test_leI) (simp add: power2_eq_square)
  then have i22: "\<forall>t\<in>{0..22}. python_test (orbit (Complex (- 2) (1 / 2 ^ 52)) t)" by (rule ball_step[OF i21]) simp
  have "python_test (orbit (Complex (- 2) (1 / 2 ^ 52)) 23)"
    unfolding c94_orbit_23 by (rule python_test_leI) (simp add: power2_eq_square)
  then have i23: "\<forall>t\<in>{0..23}. python_test (orbit (Complex (- 2) (1 / 2 ^ 52)) t)" by (rule ball_step[OF i22]) simp
  have "python_test (orbit (Complex (- 2) (1 / 2 ^ 52)) 24)"
    unfolding c94_orbit_24 by (rule python_test_leI) (simp add: power2_eq_square)
  then have i24: "\<forall>t\<in>{0..24}. python_test (orbit (Complex (- 2) (1 / 2 ^ 52)) t)" by (rule ball_step[OF i23]) simp
  have "python_test (orbit (Complex (- 2) (1 / 2 ^ 52)) 25)"
    unfolding c94_orbit_25 by (rule python_test_leI) (simp add: power2_eq_square)
  then have i25: "\<forall>t\<in>{0..25}. python_test (orbit (Complex (- 2) (1 / 2 ^ 52)) t)" by (rule ball_step[OF i24]) simp
  have "python_test (orbit (Complex (- 2) (1 / 2 ^ 52)) 26)"
    unfolding c94_orbit_26 by (rule python_test_leI) (simp add: power2_eq_square)
  then have i26: "\<forall>t\<in>{0..26}. python_test (orbit (Complex (- 2) (1 / 2 ^ 52)) t)" by (rule ball_step[OF i25]) simp
  have "python_test (orbit (Complex (- 2) (1 / 2 ^ 52)) 27)"
    unfolding c94_orbit_27 by (rule python_test_leI) (simp add: power2_eq_square)
  then have i27: "\<forall>t\<in>{0..27}. python_test (orbit (Complex (- 2) (1 / 2 ^ 52)) t)" by (rule ball_step[OF i26]) simp
  have "python_test (orbit (Complex (- 2) (1 / 2 ^ 52)) 28)"
    unfolding c94_orbit_28 by (rule python_test_leI) (simp add: power2_eq_square)
  then have i28: "\<forall>t\<in>{0..28}. python_test (orbit (Complex (- 2) (1 / 2 ^ 52)) t)" by (rule ball_step[OF i27]) simp
  have "\<not> python_test (orbit (Complex (- 2) (1 / 2 ^ 52)) 29)"
    unfolding c94_orbit_29 by (rule python_test_gtI) (simp add: power2_eq_square)
  then show ?thesis using i28 by (simp add: last_inside_def)
qed
text \<open>
  Over the real numbers cell \<open>(47, 0)\<close> of the grid of side 94 has \<open>c = -2\<close>, whose
  orbit \<open>0, -2, 2, 2, ...\<close> never leaves the radius 10: with \<open>K = 100\<close> the last index
  within the bound is 99. The run records 28.
\<close>

theorem mandelbrot_python_rounding_counterexample:
  "exact_c 94 47 0 = - 2 \<and> exact_last_inside (exact_c 94 47 0) 100 99 \<and>
   cell_c 94 47 0 = Complex (- 2) (1 / 2 ^ 52) \<and>
   result_cell (mandelbrot_python \<lparr>cells = replicate 94 (replicate 94 0), writes = []\<rparr> 94 100) 47 0
     = Inr 28"
proof -
  have c: "exact_c 94 47 0 = - 2" by (simp add: exact_c_def complex_eq_iff)
  have "cmod (exact_orbit (- 2) t) \<le> 10" for t
  proof (cases t)
    case 0
    then show ?thesis by simp
  next
    case (Suc u)
    then show ?thesis by (cases u) (simp_all add: exact_orbit_minus_two del: exact_orbit.simps, simp)
  qed
  then have "exact_last_inside (- 2) 100 99" by (simp add: exact_last_inside_def)
  then have e: "exact_last_inside (exact_c 94 47 0) 100 99" unfolding c .
  have f: "fits \<lparr>cells = replicate 94 (replicate 94 0), writes = []\<rparr> (nat 94)"
    by (simp add: fits_def)
  have l: "last_inside python_test (cell_c 94 47 0) (nat 100) 28"
    using c94_inside by (simp only: c94_cell nat_numeral)
  have "result_cell (mandelbrot_python \<lparr>cells = replicate 94 (replicate 94 0), writes = []\<rparr> 94 100) 47 0
     = Inr (int 28)"
    by (rule python_cell_value[OF _ _ f _ _ l]) simp_all
  then have r: "result_cell (mandelbrot_python \<lparr>cells = replicate 94 (replicate 94 0), writes = []\<rparr> 94 100) 47 0
     = Inr 28"
    by simp
  show ?thesis by (intro conjI) (fact c e c94_cell r)+
qed
text \<open>
  C2, as the code has it. For \<open>S \<ge> 1\<close>, \<open>K \<ge> 1\<close> and a cell \<open>(row, col)\<close> of the grid,
  \<open>mandelbrot_python\<close> records the last index \<open>n \<le> K - 1\<close> at which the computed
  orbit passes \<open>np.abs(z) <= 10\<close>. The parameter is the float
  \<open>c = fl (-2 + fl (fl (3 / S) * col)) + fl (1.5 - fl (fl (3 / S) * row)) i\<close> and the
  orbit is \<open>z\<^sub>0 = 0\<close>, \<open>z\<^sub>t\<^sub>+\<^sub>1 = z\<^sub>t * z\<^sub>t + c\<close> with every operation rounded: every
  point up to \<open>n\<close> passes the test and the next one, if the budget reaches it, fails. A
  cell whose computed orbit never fails the test holds \<open>K - 1\<close>, and so does a cell
  with \<open>c = 0\<close>.
\<close>

theorem mandelbrot_python_records:
  assumes "1 \<le> S" "1 \<le> K" "fits m (nat S)" "row < nat S" "col < nat S"
    and "c = Complex (fl (- 2 + fl (fl (3 / fl (of_int S)) * fl (real col))))
                     (fl (3 / 2 - fl (fl (3 / fl (of_int S)) * fl (real row))))"
  shows "\<exists>m' n. mandelbrot_python m S K = Inr m' \<and> cells m' ! row ! col = int n \<and>
           int n \<le> K - 1 \<and>
           (\<forall>t\<in>{0..n}. np_abs (orbit c t) \<le> 10) \<and>
           (int n < K - 1 \<longrightarrow> 10 < np_abs (orbit c (Suc n))) \<and>
           ((\<forall>t. np_abs (orbit c t) \<le> 10) \<longrightarrow> int n = K - 1) \<and>
           (c = 0 \<longrightarrow> int n = K - 1)"
proof -
  have cc: "cell_c S row col = c" unfolding assms(6) by (rule cell_c_eq)
  obtain m' v where "mandelbrot_python m S K = Inr m' \<and> cells m' ! row ! col = int v \<and>
      last_inside python_test (cell_c S row col) (nat K) v"
    using python_cell[OF assms(1-5)] by blast
  note m = this[THEN conjunct1] and e = this[THEN conjunct2, THEN conjunct1]
    and l = this[THEN conjunct2, THEN conjunct2, unfolded cc last_inside_def python_test_def]
  note l1 = l[THEN conjunct1] and l2 = l[THEN conjunct2, THEN conjunct1]
    and l3 = l[THEN conjunct2, THEN conjunct2]
  have b: "int v \<le> K - 1" using l1 by linarith
  have n: "int v < K - 1 \<longrightarrow> 10 < np_abs (orbit c (Suc v))"
  proof
    assume "int v < K - 1"
    then have "Suc v < nat K" by linarith
    with l3 show "10 < np_abs (orbit c (Suc v))" by simp
  qed
  have a: "(\<forall>t. np_abs (orbit c t) \<le> 10) \<longrightarrow> int v = K - 1"
  proof
    assume "\<forall>t. np_abs (orbit c t) \<le> 10"
    then have "np_abs (orbit c (Suc v)) \<le> 10" by (rule spec)
    with n b show "int v = K - 1" by linarith
  qed
  have z: "c = 0 \<longrightarrow> int v = K - 1"
  proof
    assume "c = 0"
    then have "\<forall>t. np_abs (orbit c t) \<le> 10" by (simp add: orbit_zero np_abs_def)
    with a show "int v = K - 1" by simp
  qed
  show ?thesis using m e b l2 n a z by blast
qed

theorem mandelbrot_python_records_witness:
  "\<exists>m'. mandelbrot_python \<lparr>cells = replicate 6 (replicate 6 0), writes = []\<rparr> 6 100 = Inr m' \<and>
      cells m' ! 3 ! 4 = 99"
proof -
  have f: "fits \<lparr>cells = replicate 6 (replicate 6 0), writes = []\<rparr> (nat 6)"
    by (simp add: fits_def)
  have f6: "fl (real_of_int 6) = 6" using fl_int[of 6] by simp
  have h: "fl (3 / 6) = 1 / 2" using fl_dyadic[of 1 1] by simp
  have f4: "fl (real 4) = 4" using fl_int[of 4] by simp
  have f3: "fl (real 3) = 3" using fl_int[of 3] by simp
  have f2: "fl (1 / 2 * 4) = 2" using fl_int[of 2] by simp
  have f32: "fl (1 / 2 * 3) = 3 / 2" using fl_dyadic[of 3 1] by simp
  have c: "(0 :: complex) = Complex (fl (- 2 + fl (fl (3 / fl (of_int 6)) * fl (real 4))))
                     (fl (3 / 2 - fl (fl (3 / fl (of_int 6)) * fl (real 3))))"
    unfolding f6 h f4 f3 f2 f32 by (simp add: complex_eq_iff)
  from mandelbrot_python_records[of 6 100 _ 3 4 0, OF _ _ f _ _ c]
  show ?thesis by auto
qed

text \<open>
  On floats the two bound tests are not the same predicate: at \<open>z = (6 + 2\<^sup>-\<^sup>5\<^sup>0) + 8 i\<close>
  the modulus rounds to 10 and passes \<open>np.abs(z) <= 10\<close>, while the rounded sum of the
  squares is \<open>100 + 2\<^sup>-\<^sup>4\<^sup>6\<close> and fails \<open>z.real**2 + z.imag**2 <= 100\<close>.
\<close>

lemma tests_differ:
  "python_test (Complex (6755399441055745 / 2 ^ 50) 8) \<and>
   \<not> cython_test (Complex (6755399441055745 / 2 ^ 50) 8)"
proof -
  let ?z = "Complex (6755399441055745 / 2 ^ 50) 8"
  have p: "fl ((6755399441055745 / 2 ^ 50) * (6755399441055745 / 2 ^ 50)) = 2533274790395905 / 2 ^ 46"
    using fl_eqI[of 5 "(6755399441055745 / 2 ^ 50) * (6755399441055745 / 2 ^ 50)" 5066549580791810]
    by (simp add: power_int_minus)
  have q: "fl (8 * 8) = 64"
    using fl_eqI[of 6 "8 * 8" 4503599627370496] by (simp add: power_int_minus)
  have s: "fl ((2533274790395905 / 2 ^ 46) + 64) = 7036874417766401 / 2 ^ 46"
    using fl_eqI[of 6 "(2533274790395905 / 2 ^ 46) + 64" 7036874417766401]
    by (simp add: power_int_minus)
  have r: "fl (10 + 1 / 2 ^ 50) = 10"
    using fl_tieI[of 3 "10 + 1 / 2 ^ 50" 5629499534213120] by (simp add: power_int_minus)
  have "(Re ?z)\<^sup>2 + (Im ?z)\<^sup>2 \<le> (10 + 1 / 2 ^ 50)\<^sup>2" by (simp add: power2_eq_square)
  then have "sqrt ((Re ?z)\<^sup>2 + (Im ?z)\<^sup>2) \<le> sqrt ((10 + 1 / 2 ^ 50)\<^sup>2)"
    by (simp only: real_sqrt_le_iff)
  moreover have "sqrt ((10 + 1 / 2 ^ 50)\<^sup>2) = (10 + 1 / 2 ^ 50 :: real)" by simp
  ultimately have "cmod ?z \<le> 10 + 1 / 2 ^ 50" by (simp only: cmod_def)
  then have "fl (cmod ?z) \<le> fl (10 + 1 / 2 ^ 50)" by (rule fl_mono)
  then have a: "python_test ?z" unfolding r by (simp add: python_test_def np_abs_def)
  have "fadd (fmul (Re ?z) (Re ?z)) (fmul (Im ?z) (Im ?z)) = 7036874417766401 / 2 ^ 46"
    unfolding fadd_def fmul_def complex.sel p q s ..
  then have b: "\<not> cython_test ?z" by (simp add: cython_test_def)
  show ?thesis using a b by (rule conjI)
qed

section \<open>The random walk\<close>

lemma walk_loop_step:
  assumes "i < length x" "Suc i < length x"
  shows "walk_loop rnd dx x (i # is) =
           walk_loop rnd dx (x[Suc i := walk_next dx (rnd i) (x ! i)]) is"
  using assms by (simp add: array_get_def array_set_def walk_next_def Let_def)

lemma walk_loop_run:
  assumes "length x = N" "M < N"
  shows "\<exists>x'. walk_loop rnd dx x [i..<M] = Inr x' \<and> length x' = N \<and>
           (\<forall>k. k \<le> i \<longrightarrow> x' ! k = x ! k) \<and>
           (\<forall>k. i \<le> k \<and> k < M \<longrightarrow> x' ! Suc k = walk_next dx (rnd k) (x' ! k))"
  using assms
proof (induction "M - i" arbitrary: i x)
  case 0
  then have le: "M \<le> i" by simp
  then have "walk_loop rnd dx x [i..<M] = Inr x" by simp
  moreover have "\<forall>k. i \<le> k \<and> k < M \<longrightarrow> x ! Suc k = walk_next dx (rnd k) (x ! k)"
    using le by simp
  ultimately show ?case using "0.prems"(1) by (intro exI[of _ x]) simp
next
  case (Suc d)
  then have lt: "i < M" by linarith
  let ?x1 = "x[Suc i := walk_next dx (rnd i) (x ! i)]"
  have r: "i < length x" "Suc i < length x" using lt Suc.prems by simp_all
  have unfold: "walk_loop rnd dx x [i..<M] = walk_loop rnd dx ?x1 [Suc i..<M]"
    using upt_conv_Cons[OF lt] walk_loop_step[OF r] by simp
  have d: "d = M - Suc i" using Suc.hyps(2) by simp
  have len: "length ?x1 = N" using Suc.prems(1) by simp
  from Suc.hyps(1)[OF d len Suc.prems(2)]
  obtain x' where x': "walk_loop rnd dx ?x1 [Suc i..<M] = Inr x'" "length x' = N"
    "\<forall>k. k \<le> Suc i \<longrightarrow> x' ! k = ?x1 ! k"
    "\<forall>k. Suc i \<le> k \<and> k < M \<longrightarrow> x' ! Suc k = walk_next dx (rnd k) (x' ! k)"
    by blast
  have keep: "\<forall>k. k \<le> i \<longrightarrow> x' ! k = x ! k"
  proof (intro allI impI)
    fix k assume k: "k \<le> i"
    then have "x' ! k = ?x1 ! k" using x'(3) by simp
    also have "\<dots> = x ! k" using k by simp
    finally show "x' ! k = x ! k" .
  qed
  have here: "x' ! Suc i = walk_next dx (rnd i) (x' ! i)"
  proof -
    have "x' ! Suc i = ?x1 ! Suc i" using x'(3) by simp
    also have "\<dots> = walk_next dx (rnd i) (x ! i)" using r(2) by simp
    also have "x ! i = x' ! i" using keep by simp
    finally show ?thesis .
  qed
  have rec: "\<forall>k. i \<le> k \<and> k < M \<longrightarrow> x' ! Suc k = walk_next dx (rnd k) (x' ! k)"
  proof (intro allI impI)
    fix k assume k: "i \<le> k \<and> k < M"
    show "x' ! Suc k = walk_next dx (rnd k) (x' ! k)"
    proof (cases "k = i")
      case True
      with here show ?thesis by simp
    next
      case False
      with k have "Suc i \<le> k \<and> k < M" by simp
      with x'(4) show ?thesis by blast
    qed
  qed
  from unfold x'(1,2) keep rec show ?case by (intro exI[of _ x']) simp
qed

lemma walk_numba_run:
  assumes "1 \<le> n"
  shows "\<exists>x. walk_numba rnd n = Inr x \<and> length x = nat n \<and> x ! 0 = 0 \<and>
           (\<forall>k. Suc k < nat n \<longrightarrow> x ! Suc k = walk_next (fdiv 1 (float_of_int n)) (rnd k) (x ! k))"
proof -
  let ?x0 = "replicate (nat n) (0::real)"
  have len: "length ?x0 = nat n" by simp
  have lt: "nat (n - 1) < nat n" using assms by simp
  from walk_loop_run[OF len lt, of rnd "fdiv 1 (float_of_int n)" 0]
  obtain x where x: "walk_loop rnd (fdiv 1 (float_of_int n)) ?x0 [0..<nat (n - 1)] = Inr x"
    "length x = nat n" "\<forall>k. k \<le> 0 \<longrightarrow> x ! k = ?x0 ! k"
    "\<forall>k. 0 \<le> k \<and> k < nat (n - 1) \<longrightarrow> x ! Suc k = walk_next (fdiv 1 (float_of_int n)) (rnd k) (x ! k)"
    by blast
  have run: "walk_numba rnd n = Inr x"
    using assms x(1) by (simp add: walk_numba_def np_zeros_def py_range_def)
  have z: "x ! 0 = 0" using x(3) assms by simp
  have rec: "\<forall>k. Suc k < nat n \<longrightarrow> x ! Suc k = walk_next (fdiv 1 (float_of_int n)) (rnd k) (x ! k)"
  proof (intro allI impI)
    fix k assume "Suc k < nat n"
    then have "0 \<le> k \<and> k < nat (n - 1)" by linarith
    with x(4) show "x ! Suc k = walk_next (fdiv 1 (float_of_int n)) (rnd k) (x ! k)" by blast
  qed
  from run x(2) z rec show ?thesis by blast
qed


lemma walk_next_up_keep:
  assumes "fl d = d" "fl (xi + d) = c" "c \<le> 5764607523034235 / 2 ^ 60"
  shows "walk_next d (draws_high k) xi = c"
  using assms
  by (simp add: walk_next_def Let_def step_numba_def draws_high_def fadd_def fmul_def
      fl_threshold_reduced)

lemma walk_next_up_reset:
  assumes "fl d = d" "fl (xi + d) = c" "5764607523034235 / 2 ^ 60 < c"
  shows "walk_next d (draws_high k) xi = 0"
  using assms
  by (simp add: walk_next_def Let_def step_numba_def draws_high_def fadd_def fmul_def
      fl_threshold_reduced)

lemma walk_next_down_keep:
  assumes "fl d = d" "fl (xi - d) = c" "c \<le> 5764607523034235 / 2 ^ 60"
  shows "walk_next d (draws_low k) xi = c"
  using assms fl_neg[of d]
  by (simp add: walk_next_def Let_def step_numba_def draws_low_def fadd_def fmul_def
      fl_threshold_reduced)

lemma walk_next_cases:
  assumes "fl d = d"
  shows "walk_next d r xi =
     (let cand = (if r > 1 / 2 then fl (xi + d) else fl (xi - d))
      in if cand > fl (5 / 1000) then 0 else cand)"
  using assms fl_neg[of d]
  by (simp add: walk_next_def Let_def step_numba_def fadd_def fmul_def)

text \<open>
  C4, as the code has it. For every \<open>n \<ge> 1\<close>, \<open>walk_numba\<close> returns exactly \<open>n\<close>
  values and the first is 0. The step is the float \<open>dx = fl (1 / n)\<close>, and for each
  \<open>i\<close> in \<open>[0, n - 2]\<close> the candidate is the rounded sum \<open>fl (position[i] + dx)\<close> or the
  rounded difference \<open>fl (position[i] - dx)\<close>; \<open>position[i + 1]\<close> is the candidate, or
  0 when the candidate exceeds the float \<open>5e-3\<close>.
\<close>

theorem walk_numba_steps:
  assumes "1 \<le> n" and "dx = fl (1 / fl (real_of_int n))"
  shows "\<exists>x. walk_numba rnd n = Inr x \<and> int (length x) = n \<and> x ! 0 = 0 \<and>
           (\<forall>i. int i \<le> n - 2 \<longrightarrow>
              (\<exists>cand. cand = (if rnd i > 1 / 2 then fl (x ! i + dx) else fl (x ! i - dx)) \<and>
                 x ! Suc i = (if cand > fl (5 / 1000) then 0 else cand)))"
proof -
  have dx: "fdiv 1 (float_of_int n) = fl dx"
    unfolding assms(2) by (simp add: fdiv_def float_of_int_def)
  have idem: "fl dx = dx" unfolding assms(2) by simp
  from walk_numba_run[OF assms(1), of rnd]
  obtain x where x: "walk_numba rnd n = Inr x" "length x = nat n" "x ! 0 = 0"
    "\<forall>k. Suc k < nat n \<longrightarrow> x ! Suc k = walk_next (fdiv 1 (float_of_int n)) (rnd k) (x ! k)"
    by blast
  have len: "int (length x) = n" using x(2) assms(1) by simp
  have rec: "\<forall>i. int i \<le> n - 2 \<longrightarrow>
      (\<exists>cand. cand = (if rnd i > 1 / 2 then fl (x ! i + dx) else fl (x ! i - dx)) \<and>
         x ! Suc i = (if cand > fl (5 / 1000) then 0 else cand))"
  proof (intro allI impI)
    fix i assume "int i \<le> n - 2"
    then have "Suc i < nat n" by linarith
    with x(4) have "x ! Suc i = walk_next dx (rnd i) (x ! i)" unfolding dx idem by blast
    then have "x ! Suc i =
        (let cand = (if rnd i > 1 / 2 then fl (x ! i + dx) else fl (x ! i - dx))
         in if cand > fl (5 / 1000) then 0 else cand)"
      unfolding walk_next_cases[OF idem] .
    then show "\<exists>cand. cand = (if rnd i > 1 / 2 then fl (x ! i + dx) else fl (x ! i - dx)) \<and>
         x ! Suc i = (if cand > fl (5 / 1000) then 0 else cand)"
      by (simp add: Let_def)
  qed
  from x(1) len x(3) rec show ?thesis by blast
qed

theorem walk_numba_steps_witness:
  "\<exists>x. walk_numba draws_low 3 = Inr x \<and> int (length x) = 3 \<and> x ! 0 = 0 \<and>
      x ! 1 = - (6004799503160661 / 2 ^ 54) \<and> x ! 2 = - (6004799503160661 / 2 ^ 53)"
proof -
  have fn: "fl (real_of_int 3) = 3" using fl_int[of 3] by simp
  have dx: "fl (1 / 3) = 6004799503160661 / 2 ^ 54"
    using fl_eqI[of "- 2" "1 / 3" 6004799503160661] by (simp add: power_int_minus)
  have d: "6004799503160661 / 2 ^ 54 = fl (1 / fl (real_of_int 3))"
    by (simp only: fn dx)
  have c1: "fl (0 - 6004799503160661 / 2 ^ 54) = - (6004799503160661 / 2 ^ 54)"
    using fl_eqI[of "- 2" "0 - 6004799503160661 / 2 ^ 54" "- 6004799503160661"]
    by (simp add: power_int_minus)
  have c2: "fl (- (6004799503160661 / 2 ^ 54) - 6004799503160661 / 2 ^ 54) = - (6004799503160661 / 2 ^ 53)"
    using fl_eqI[of "- 1" "- (6004799503160661 / 2 ^ 54) - 6004799503160661 / 2 ^ 54" "- 6004799503160661"]
    by (simp add: power_int_minus)
  from walk_numba_steps[OF _ d, of draws_low]
  obtain x where x: "walk_numba draws_low 3 = Inr x" "int (length x) = 3" "x ! 0 = 0"
    and rec: "\<forall>i. int i \<le> 3 - 2 \<longrightarrow>
              (\<exists>cand. cand = (if draws_low i > 1 / 2 then fl (x ! i + 6004799503160661 / 2 ^ 54)
                                else fl (x ! i - 6004799503160661 / 2 ^ 54)) \<and>
                 x ! Suc i = (if cand > fl (5 / 1000) then 0 else cand))"
    by auto
  have low: "\<not> draws_low i > 1 / 2" for i by (simp add: draws_low_def)
  have h0: "int 0 \<le> 3 - 2" and h1: "int 1 \<le> 3 - 2" by simp_all
  from rec[rule_format, OF h0] obtain c0 where
    "c0 = (if draws_low 0 > 1 / 2 then fl (x ! 0 + 6004799503160661 / 2 ^ 54)
           else fl (x ! 0 - 6004799503160661 / 2 ^ 54))"
    and s0: "x ! Suc 0 = (if c0 > fl (5 / 1000) then 0 else c0)"
    by blast
  then have "c0 = - (6004799503160661 / 2 ^ 54)" unfolding x(3) c1 by (simp only: low if_False)
  with s0 have "x ! Suc 0 = - (6004799503160661 / 2 ^ 54)" unfolding fl_threshold by simp
  then have x1: "x ! 1 = - (6004799503160661 / 2 ^ 54)" by (simp only: One_nat_def)
  from rec[rule_format, OF h1] obtain c1' where
    "c1' = (if draws_low 1 > 1 / 2 then fl (x ! 1 + 6004799503160661 / 2 ^ 54)
           else fl (x ! 1 - 6004799503160661 / 2 ^ 54))"
    and s1: "x ! Suc 1 = (if c1' > fl (5 / 1000) then 0 else c1')"
    by blast
  then have "c1' = - (6004799503160661 / 2 ^ 53)" unfolding x1 c2 by (simp only: low if_False)
  with s1 have "x ! Suc 1 = - (6004799503160661 / 2 ^ 53)" unfolding fl_threshold by simp
  then have "x ! 2 = - (6004799503160661 / 2 ^ 53)" by (simp only: Suc_1)
  with x x1 show ?thesis by blast
qed

text \<open>
  Two runs. With \<open>n = 3\<close> and every draw at most \<open>.5\<close> the first step is
  \<open>-fl (1 / 3)\<close>. With \<open>n = 2000\<close> and every draw above \<open>.5\<close> the tenth candidate is
  \<open>0.005000000000000001\<close>, above the threshold, and \<open>position[10]\<close> is reset to 0.
\<close>

lemma walk_low_3:
  "\<exists>x. walk_numba draws_low 3 = Inr x \<and> x ! 0 = 0 \<and> x ! 1 = - (6004799503160661 / 2 ^ 54) \<and>
      x ! 2 = - (6004799503160661 / 2 ^ 53)"
proof -
  note thr = fl_threshold_reduced
  from walk_numba_run[of 3 draws_low]
  obtain x where x: "walk_numba draws_low 3 = Inr x" and x0: "x ! 0 = 0"
    and rec: "\<forall>k. Suc k < nat 3 \<longrightarrow>
        x ! Suc k = walk_next (fdiv 1 (float_of_int 3)) (draws_low k) (x ! k)"
    by auto
  have s: "x ! k' = walk_next (fdiv 1 (float_of_int 3)) (draws_low k) (x ! k)"
    if "k' = Suc k" "k' < 3" for k k'
    using rec that by simp
  have fn: "fl (real_of_int 3) = 3"
    using fl_eqI[of 1 "real_of_int 3" 6755399441055744] by (simp add: power_int_minus)
  have dx: "fl (1 / 3) = 6004799503160661 / 2 ^ 54"
    using fl_eqI[of "- 2" "1 / 3" 6004799503160661] by (simp add: power_int_minus)
  have fd: "fl ((6004799503160661 / 2 ^ 54)) = 6004799503160661 / 2 ^ 54"
    using fl_eqI[of "- 2" "(6004799503160661 / 2 ^ 54)" 6004799503160661] by (simp add: power_int_minus)
  have d: "fdiv 1 (float_of_int 3) = 6004799503160661 / 2 ^ 54"
    unfolding fdiv_def float_of_int_def by (simp only: fn dx)
  have c1: "fl (0 - (6004799503160661 / 2 ^ 54)) = - 6004799503160661 / 2 ^ 54"
    using fl_eqI[of "- 2" "0 - (6004799503160661 / 2 ^ 54)" "- 6004799503160661"] by (simp add: power_int_minus)
  have x1: "x ! 1 = - 6004799503160661 / 2 ^ 54"
  proof -
    have "x ! 1 = walk_next (fdiv 1 (float_of_int 3)) (draws_low 0) (x ! 0)" by (rule s) simp_all
    also have "\<dots> = - 6004799503160661 / 2 ^ 54" unfolding d x0 by (rule walk_next_down_keep[OF fd c1]) simp
    finally show ?thesis .
  qed
  have c2: "fl ((- 6004799503160661 / 2 ^ 54) - (6004799503160661 / 2 ^ 54)) = - 6004799503160661 / 2 ^ 53"
    using fl_eqI[of "- 1" "(- 6004799503160661 / 2 ^ 54) - (6004799503160661 / 2 ^ 54)" "- 6004799503160661"] by (simp add: power_int_minus)
  have x2: "x ! 2 = - 6004799503160661 / 2 ^ 53"
  proof -
    have "x ! 2 = walk_next (fdiv 1 (float_of_int 3)) (draws_low 1) (x ! 1)" by (rule s) simp_all
    also have "\<dots> = - 6004799503160661 / 2 ^ 53" unfolding d x1 by (rule walk_next_down_keep[OF fd c2]) simp
    finally show ?thesis .
  qed
  from x x0 x1 x2 show ?thesis by simp
qed

lemma walk_high_2000: "\<exists>x. walk_numba draws_high 2000 = Inr x \<and> x ! 10 = 0"
proof -
  note thr = fl_threshold_reduced
  from walk_numba_run[of 2000 draws_high]
  obtain x where x: "walk_numba draws_high 2000 = Inr x" and x0: "x ! 0 = 0"
    and rec: "\<forall>k. Suc k < nat 2000 \<longrightarrow>
        x ! Suc k = walk_next (fdiv 1 (float_of_int 2000)) (draws_high k) (x ! k)"
    by auto
  have s: "x ! k' = walk_next (fdiv 1 (float_of_int 2000)) (draws_high k) (x ! k)"
    if "k' = Suc k" "k' < 2000" for k k'
    using rec that by simp
  have fn: "fl (real_of_int 2000) = 2000"
    using fl_eqI[of 10 "real_of_int 2000" 8796093022208000] by (simp add: power_int_minus)
  have dx: "fl (1 / 2000) = 1152921504606847 / 2 ^ 61"
    using fl_eqI[of "- 11" "1 / 2000" 4611686018427388] by (simp add: power_int_minus)
  have fd: "fl ((1152921504606847 / 2 ^ 61)) = 1152921504606847 / 2 ^ 61"
    using fl_eqI[of "- 11" "(1152921504606847 / 2 ^ 61)" 4611686018427388] by (simp add: power_int_minus)
  have d: "fdiv 1 (float_of_int 2000) = 1152921504606847 / 2 ^ 61"
    unfolding fdiv_def float_of_int_def by (simp only: fn dx)
  have c1: "fl (0 + (1152921504606847 / 2 ^ 61)) = 1152921504606847 / 2 ^ 61"
    using fl_eqI[of "- 11" "0 + (1152921504606847 / 2 ^ 61)" 4611686018427388] by (simp add: power_int_minus)
  have x1: "x ! 1 = 1152921504606847 / 2 ^ 61"
  proof -
    have "x ! 1 = walk_next (fdiv 1 (float_of_int 2000)) (draws_high 0) (x ! 0)" by (rule s) simp_all
    also have "\<dots> = 1152921504606847 / 2 ^ 61" unfolding d x0 by (rule walk_next_up_keep[OF fd c1]) simp
    finally show ?thesis .
  qed
  have c2: "fl ((1152921504606847 / 2 ^ 61) + (1152921504606847 / 2 ^ 61)) = 1152921504606847 / 2 ^ 60"
    using fl_eqI[of "- 10" "(1152921504606847 / 2 ^ 61) + (1152921504606847 / 2 ^ 61)" 4611686018427388] by (simp add: power_int_minus)
  have x2: "x ! 2 = 1152921504606847 / 2 ^ 60"
  proof -
    have "x ! 2 = walk_next (fdiv 1 (float_of_int 2000)) (draws_high 1) (x ! 1)" by (rule s) simp_all
    also have "\<dots> = 1152921504606847 / 2 ^ 60" unfolding d x1 by (rule walk_next_up_keep[OF fd c2]) simp
    finally show ?thesis .
  qed
  have c3: "fl ((1152921504606847 / 2 ^ 60) + (1152921504606847 / 2 ^ 61)) = 3458764513820541 / 2 ^ 61"
    using fl_eqI[of "- 10" "(1152921504606847 / 2 ^ 60) + (1152921504606847 / 2 ^ 61)" 6917529027641082] by (simp add: power_int_minus)
  have x3: "x ! 3 = 3458764513820541 / 2 ^ 61"
  proof -
    have "x ! 3 = walk_next (fdiv 1 (float_of_int 2000)) (draws_high 2) (x ! 2)" by (rule s) simp_all
    also have "\<dots> = 3458764513820541 / 2 ^ 61" unfolding d x2 by (rule walk_next_up_keep[OF fd c3]) simp
    finally show ?thesis .
  qed
  have c4: "fl ((3458764513820541 / 2 ^ 61) + (1152921504606847 / 2 ^ 61)) = 1152921504606847 / 2 ^ 59"
    using fl_eqI[of "- 9" "(3458764513820541 / 2 ^ 61) + (1152921504606847 / 2 ^ 61)" 4611686018427388] by (simp add: power_int_minus)
  have x4: "x ! 4 = 1152921504606847 / 2 ^ 59"
  proof -
    have "x ! 4 = walk_next (fdiv 1 (float_of_int 2000)) (draws_high 3) (x ! 3)" by (rule s) simp_all
    also have "\<dots> = 1152921504606847 / 2 ^ 59" unfolding d x3 by (rule walk_next_up_keep[OF fd c4]) simp
    finally show ?thesis .
  qed
  have c5: "fl ((1152921504606847 / 2 ^ 59) + (1152921504606847 / 2 ^ 61)) = 5764607523034235 / 2 ^ 61"
    using fl_eqI[of "- 9" "(1152921504606847 / 2 ^ 59) + (1152921504606847 / 2 ^ 61)" 5764607523034235] by (simp add: power_int_minus)
  have x5: "x ! 5 = 5764607523034235 / 2 ^ 61"
  proof -
    have "x ! 5 = walk_next (fdiv 1 (float_of_int 2000)) (draws_high 4) (x ! 4)" by (rule s) simp_all
    also have "\<dots> = 5764607523034235 / 2 ^ 61" unfolding d x4 by (rule walk_next_up_keep[OF fd c5]) simp
    finally show ?thesis .
  qed
  have c6: "fl ((5764607523034235 / 2 ^ 61) + (1152921504606847 / 2 ^ 61)) = 3458764513820541 / 2 ^ 60"
    using fl_eqI[of "- 9" "(5764607523034235 / 2 ^ 61) + (1152921504606847 / 2 ^ 61)" 6917529027641082] by (simp add: power_int_minus)
  have x6: "x ! 6 = 3458764513820541 / 2 ^ 60"
  proof -
    have "x ! 6 = walk_next (fdiv 1 (float_of_int 2000)) (draws_high 5) (x ! 5)" by (rule s) simp_all
    also have "\<dots> = 3458764513820541 / 2 ^ 60" unfolding d x5 by (rule walk_next_up_keep[OF fd c6]) simp
    finally show ?thesis .
  qed
  have c7: "fl ((3458764513820541 / 2 ^ 60) + (1152921504606847 / 2 ^ 61)) = 8070450532247929 / 2 ^ 61"
    using fl_eqI[of "- 9" "(3458764513820541 / 2 ^ 60) + (1152921504606847 / 2 ^ 61)" 8070450532247929] by (simp add: power_int_minus)
  have x7: "x ! 7 = 8070450532247929 / 2 ^ 61"
  proof -
    have "x ! 7 = walk_next (fdiv 1 (float_of_int 2000)) (draws_high 6) (x ! 6)" by (rule s) simp_all
    also have "\<dots> = 8070450532247929 / 2 ^ 61" unfolding d x6 by (rule walk_next_up_keep[OF fd c7]) simp
    finally show ?thesis .
  qed
  have c8: "fl ((8070450532247929 / 2 ^ 61) + (1152921504606847 / 2 ^ 61)) = 1152921504606847 / 2 ^ 58"
    using fl_eqI[of "- 8" "(8070450532247929 / 2 ^ 61) + (1152921504606847 / 2 ^ 61)" 4611686018427388] by (simp add: power_int_minus)
  have x8: "x ! 8 = 1152921504606847 / 2 ^ 58"
  proof -
    have "x ! 8 = walk_next (fdiv 1 (float_of_int 2000)) (draws_high 7) (x ! 7)" by (rule s) simp_all
    also have "\<dots> = 1152921504606847 / 2 ^ 58" unfolding d x7 by (rule walk_next_up_keep[OF fd c8]) simp
    finally show ?thesis .
  qed
  have c9: "fl ((1152921504606847 / 2 ^ 58) + (1152921504606847 / 2 ^ 61)) = 1297036692682703 / 2 ^ 58"
    using fl_tieI[of "- 8" "(1152921504606847 / 2 ^ 58) + (1152921504606847 / 2 ^ 61)" 5188146770730812] by (simp add: power_int_minus)
  have x9: "x ! 9 = 1297036692682703 / 2 ^ 58"
  proof -
    have "x ! 9 = walk_next (fdiv 1 (float_of_int 2000)) (draws_high 8) (x ! 8)" by (rule s) simp_all
    also have "\<dots> = 1297036692682703 / 2 ^ 58" unfolding d x8 by (rule walk_next_up_keep[OF fd c9]) simp
    finally show ?thesis .
  qed
  have c10: "fl ((1297036692682703 / 2 ^ 58) + (1152921504606847 / 2 ^ 61)) = 1441151880758559 / 2 ^ 58"
    using fl_tieI[of "- 8" "(1297036692682703 / 2 ^ 58) + (1152921504606847 / 2 ^ 61)" 5764607523034236] by (simp add: power_int_minus)
  have x10: "x ! 10 = 0"
  proof -
    have "x ! 10 = walk_next (fdiv 1 (float_of_int 2000)) (draws_high 9) (x ! 9)" by (rule s) simp_all
    also have "\<dots> = 0" unfolding d x9 by (rule walk_next_up_reset[OF fd c10]) simp
    finally show ?thesis .
  qed
  from x x10 show ?thesis by simp
qed

lemma exact_walk_high_2000: "exact_walk draws_high 2000 10 = 1 / 200"
  by (simp add: eval_nat_numeral draws_high_def step_numba_def Let_def)

text \<open>
  The steps are not exactly \<open>1 / n\<close>, and the resets are not those of the exact rule.
  With \<open>n = 3\<close>, \<open>position[1]\<close> is none of \<open>position[0] - 1 / 3\<close>,
  \<open>position[0] + 1 / 3\<close> and 0. With \<open>n = 2000\<close> and every draw above \<open>.5\<close> the exact
  rule gives \<open>position[10] = 1 / 200\<close>, which does not exceed the threshold; the run
  gives \<open>position[10] = 0\<close>.
\<close>

theorem walk_numba_steps_counterexample:
  "(\<exists>x. walk_numba draws_low 3 = Inr x \<and> x ! 0 = 0 \<and> x ! 1 = - (6004799503160661 / 2 ^ 54) \<and>
        x ! 1 \<noteq> x ! 0 - 1 / 3 \<and> x ! 1 \<noteq> x ! 0 + 1 / 3 \<and> x ! 1 \<noteq> 0) \<and>
   exact_walk draws_high 2000 10 = 1 / 200 \<and>
   (\<exists>x. walk_numba draws_high 2000 = Inr x \<and> x ! 10 = 0)"
proof -
  obtain x where x: "walk_numba draws_low 3 = Inr x" "x ! 0 = 0"
    "x ! 1 = - (6004799503160661 / 2 ^ 54)"
    using walk_low_3 by blast
  have "x ! 1 \<noteq> x ! 0 - 1 / 3 \<and> x ! 1 \<noteq> x ! 0 + 1 / 3 \<and> x ! 1 \<noteq> 0"
    unfolding x(2,3) by simp
  with x have "\<exists>x. walk_numba draws_low 3 = Inr x \<and> x ! 0 = 0 \<and>
      x ! 1 = - (6004799503160661 / 2 ^ 54) \<and>
      x ! 1 \<noteq> x ! 0 - 1 / 3 \<and> x ! 1 \<noteq> x ! 0 + 1 / 3 \<and> x ! 1 \<noteq> 0"
    by blast
  then show ?thesis using exact_walk_high_2000 walk_high_2000 by blast
qed

text \<open>
  For \<open>n = 0\<close> the step size \<open>1. / n\<close> is computed before the loop and raises: no
  sequence is returned.
\<close>

theorem walk_numba_zero_counterexample:
  "walk_numba draws_low 0 = Inl ZeroDivisionError \<and> walk_numba draws_low 0 \<noteq> Inr []"
  by (simp add: walk_numba_def np_zeros_def)

text \<open>
  C5, as the code has it. For every \<open>n \<ge> 1\<close> the walk raises no error and returns \<open>n\<close>
  values; \<open>n = 1\<close> yields the one-element sequence \<open>[0]\<close>; for \<open>n = 0\<close> the step-size
  computation raises \<open>ZeroDivisionError\<close>.
\<close>

theorem walk_numba_errors:
  "(1 \<le> n \<longrightarrow> (\<exists>x. walk_numba rnd n = Inr x \<and> int (length x) = n)) \<and>
   walk_numba rnd 1 = Inr [0] \<and>
   walk_numba rnd 0 = Inl ZeroDivisionError"
proof (intro conjI impI)
  assume "1 \<le> n"
  from walk_numba_run[OF this, of rnd]
  obtain x where "walk_numba rnd n = Inr x" "length x = nat n" by blast
  with \<open>1 \<le> n\<close> show "\<exists>x. walk_numba rnd n = Inr x \<and> int (length x) = n"
    by (intro exI[of _ x]) simp
next
  show "walk_numba rnd 1 = Inr [0]"
    by (simp add: walk_numba_def np_zeros_def py_range_def)
  show "walk_numba rnd 0 = Inl ZeroDivisionError"
    by (simp add: walk_numba_def np_zeros_def)
qed

theorem walk_numba_errors_witness:
  "(\<exists>x. walk_numba draws_high 10000 = Inr x \<and> int (length x) = 10000) \<and>
   walk_numba draws_high 1 = Inr [0] \<and>
   walk_numba draws_high 0 = Inl ZeroDivisionError"
  using walk_numba_errors[of 10000 draws_high] by simp

subsection \<open>A long walk downwards\<close>

















end
